theory Spec2Isabelle
  imports Main "HOL-Library.Word"
begin

unbundle bit_operations_syntax

section \<open>TensHash: the data model\<close>

text \<open>
  The repository holds three programs that share function names:
  \<^item> the node's cached Mode A hash (the file without a name, \<open>part_000\<close>): its functions keep
    their names here;
  \<^item> the test harness \<open>test_pow/tens_hash.c\<close> (Mode A, one-shot): its functions carry the
    suffix \<open>_tp\<close>, except \<open>generate_matrices\<close>, \<open>hexchar_to_int\<close> and \<open>parse_hex\<close>,
    which exist only there;
  \<^item> the ternary Mode B hash \<open>src/crypto/tens_pow/tens_hash.cpp\<close>: its functions carry the
    suffix \<open>_tern\<close>, except \<open>layer_forward\<close> and \<open>pack_bits\<close>, which exist only there.

  \<open>uint8_t\<close> and \<open>int8_t\<close> are both \<open>8 word\<close> (read with \<open>unat\<close> and \<open>sint\<close>), \<open>int32_t\<close> is
  \<open>32 word\<close>.
\<close>

type_synonym byte = "8 word"
type_synonym int8 = "8 word"
type_synonym int32 = "32 word"

text \<open>
  What the code takes from outside is gathered in one record: the dimensions (macros of the
  header \<open>tens_hash.h\<close>, which is not among the sources; the test harness defines them as
  32, 1024 and 64), the library functions (ChaCha20 with the all-zero nonce and block counter
  0, given as "byte number \<open>i\<close> of the keystream under this key"; SHA-256), and the
  behaviour of the C allocator (which requests fail, and the indeterminate contents of a
  fresh block).
\<close>

record env =
  IN_SIZE :: nat
  HIDDEN :: nat
  ROUNDS :: nat
  ChaCha20_Keystream :: "byte list \<Rightarrow> nat \<Rightarrow> byte"
  CSHA256 :: "byte list \<Rightarrow> byte list"
  crypto_stream_chacha20 :: "byte list \<Rightarrow> nat \<Rightarrow> byte"
  crypto_hash_sha256 :: "byte list \<Rightarrow> byte list"
  malloc_fails :: "nat \<Rightarrow> bool"
  junk :: "nat \<Rightarrow> nat \<Rightarrow> byte"

section \<open>Mode A: the layer operation\<close>

text \<open>\<open>mod256\<close> of the node's file: \<open>((uint8_t)x) & 0xFF\<close>.\<close>

definition mod256 :: "int32 \<Rightarrow> byte" where
  "mod256 x = (ucast x :: byte) AND 0xFF"

text \<open>
  The inner loop \<open>for j < cols: sum += (int32_t)A[i][j] * in[j]\<close>, with \<open>sum\<close> an
  \<open>int32_t\<close> that starts at 0.
\<close>

definition row_sum :: "byte list \<Rightarrow> byte list \<Rightarrow> nat \<Rightarrow> int32" where
  "row_sum row inp cols =
     fold (\<lambda>j sum. sum + (ucast (row ! j) :: int32) * ucast (inp ! j)) [0..<cols] 0"

text \<open>
  \<open>matrix_multiply\<close> of the node's file. \<open>A\<close> is the matrix as reached through its row
  pointers, \<open>e\<close> the noise slice (\<open>int8_t\<close>, sign-extended when added).
\<close>

definition matrix_multiply ::
  "byte list list \<Rightarrow> byte list \<Rightarrow> byte list \<Rightarrow> int8 list \<Rightarrow> nat \<Rightarrow> nat \<Rightarrow> byte list" where
  "matrix_multiply A inp out e rows cols =
     fold (\<lambda>i out. out[i := mod256 (row_sum (A ! i) inp cols + scast (e ! i))]) [0..<rows] out"

text \<open>\<open>matrix_multiply\<close> of the test harness: the same loop, with the reduction inline.\<close>

definition matrix_multiply_tp ::
  "byte list list \<Rightarrow> byte list \<Rightarrow> byte list \<Rightarrow> int8 list \<Rightarrow> nat \<Rightarrow> nat \<Rightarrow> byte list" where
  "matrix_multiply_tp A inp out e rows cols =
     fold (\<lambda>i out. out[i := (ucast (row_sum (A ! i) inp cols + scast (e ! i)) :: byte) AND 0xFF])
       [0..<rows] out"

section \<open>The C allocator\<close>

text \<open>
  \<open>malloc\<close> and \<open>calloc\<close> either fail (the environment decides, request by request) or
  return a block that was never handed out before: the address of a block is the number of
  the request that produced it. The heap records how many requests were made (\<open>brk\<close>), which
  blocks are allocated and not yet freed (\<open>live\<close>), and the order of all requests and
  releases (\<open>trace\<close>). \<open>free(NULL)\<close> does nothing.
\<close>

datatype event = Malloc nat | MallocFail | Free nat

record heap =
  brk :: nat
  live :: "nat set"
  trace :: "event list"

definition heap_init :: heap where
  "heap_init = \<lparr>brk = 0, live = {}, trace = []\<rparr>"

definition malloc :: "env \<Rightarrow> heap \<Rightarrow> nat option \<times> heap" where
  "malloc E h =
     (if malloc_fails E (brk h)
      then (None, h\<lparr>brk := Suc (brk h), trace := trace h @ [MallocFail]\<rparr>)
      else (Some (brk h),
            h\<lparr>brk := Suc (brk h), live := insert (brk h) (live h),
              trace := trace h @ [Malloc (brk h)]\<rparr>))"

definition free :: "nat \<Rightarrow> heap \<Rightarrow> heap" where
  "free a h = h\<lparr>live := live h - {a}, trace := trace h @ [Free a]\<rparr>"

definition free_opt :: "nat option \<Rightarrow> heap \<Rightarrow> heap" where
  "free_opt p h = (case p of None \<Rightarrow> h | Some a \<Rightarrow> free a h)"

text \<open>The indeterminate contents of a block of \<open>n\<close> bytes that \<open>malloc\<close> returned at \<open>a\<close>.\<close>

definition fresh :: "env \<Rightarrow> nat \<Rightarrow> nat \<Rightarrow> byte list" where
  "fresh E a n = map (junk E a) [0..<n]"

text \<open>\<open>exit(n)\<close> ends the process: nothing is returned and the heap is gone.\<close>

datatype 'a outcome = Exit int | Return 'a

section \<open>Mode A: matrices and buffers\<close>

text \<open>
  A pointer to a block that the structure owns is modelled by the block's address together
  with the block's contents; no two pointers of the program share a block. A matrix
  (\<open>uint8_t **\<close>) is the block of its row pointers (\<open>ptrs\<close>), the blocks that hold the
  coefficients (\<open>blocks\<close>: one per row in the node's file, one for the whole matrix in the
  test harness) and the coefficients as read through the row pointers (\<open>cells\<close>).
\<close>

record matrix =
  ptrs :: nat
  blocks :: "nat list"
  cells :: "byte list list"

record PrecomputedMatrices =
  pm_block :: nat
  expand_mat :: matrix
  middle_mats :: "matrix list"
  compress_mat :: matrix

record HashBuffers =
  hb_block :: nat
  state :: "nat \<times> byte list"
  next_state :: "nat \<times> byte list"
  noise :: "nat \<times> int8 list"

definition total_size :: "env \<Rightarrow> nat" where
  "total_size E = HIDDEN E * IN_SIZE E + ROUNDS E * HIDDEN E * HIDDEN E + IN_SIZE E * HIDDEN E"

definition total_noise_size :: "env \<Rightarrow> nat" where
  "total_noise_size E = HIDDEN E + ROUNDS E * HIDDEN E + IN_SIZE E"

subsection \<open>The node's file: \<open>precompute_matrices\<close>, \<open>generate_all_matrices\<close>\<close>

text \<open>
  \<open>for (i = 0; i < n; i++) { p[i] = malloc(..); if (!p[i]) { ...; return nullptr; } }\<close>:
  \<open>Inl\<close> carries the rows obtained before the failing request, \<open>Inr\<close> all rows.
\<close>

fun alloc_rows :: "env \<Rightarrow> nat \<Rightarrow> nat list \<Rightarrow> heap \<Rightarrow> (nat list + nat list) \<times> heap" where
  "alloc_rows E 0 rows h = (Inr rows, h)"
| "alloc_rows E (Suc n) rows h =
     (case malloc E h of
        (None, h1) \<Rightarrow> (Inl rows, h1)
      | (Some a, h1) \<Rightarrow> alloc_rows E n (rows @ [a]) h1)"

text \<open>
  The loop over the rounds: each round requests the row-pointer block, then its rows. A
  failure is either of the pointer block of round \<open>r\<close> or of a row of round \<open>r\<close>; the rounds
  before \<open>r\<close> are complete.
\<close>

datatype middle_failure = PtrFailed | RowFailed nat "nat list"

fun alloc_middle ::
  "env \<Rightarrow> nat \<Rightarrow> (nat \<times> nat list) list \<Rightarrow> heap \<Rightarrow>
   (((nat \<times> nat list) list \<times> middle_failure) + (nat \<times> nat list) list) \<times> heap" where
  "alloc_middle E 0 done h = (Inr done, h)"
| "alloc_middle E (Suc n) done h =
     (case malloc E h of
        (None, h1) \<Rightarrow> (Inl (done, PtrFailed), h1)
      | (Some p, h1) \<Rightarrow>
          (case alloc_rows E (HIDDEN E) [] h1 of
             (Inl rows, h2) \<Rightarrow> (Inl (done, RowFailed p rows), h2)
           | (Inr rows, h2) \<Rightarrow> alloc_middle E n (done @ [(p, rows)]) h2))"

text \<open>\<open>for (j ...) free(rows[j]);\<close> and the release of complete rounds.\<close>

definition free_rows :: "nat list \<Rightarrow> heap \<Rightarrow> heap" where
  "free_rows rows h = fold free rows h"

definition free_rounds :: "(nat \<times> nat list) list \<Rightarrow> heap \<Rightarrow> heap" where
  "free_rounds rounds h = fold (\<lambda>(p, rows) h. free p (free_rows rows h)) rounds h"

definition new_matrix :: "env \<Rightarrow> nat \<Rightarrow> nat list \<Rightarrow> nat \<Rightarrow> matrix" where
  "new_matrix E p rows cols = \<lparr>ptrs = p, blocks = rows, cells = map (\<lambda>a. fresh E a cols) rows\<rparr>"

text \<open>
  \<open>memcpy(mat[i], curr_pos, len); curr_pos += len\<close> for \<open>i < n\<close>: the first \<open>len\<close> bytes of
  row \<open>i\<close> are overwritten.
\<close>

definition copy_rows ::
  "byte list \<Rightarrow> nat \<Rightarrow> nat \<Rightarrow> byte list list \<times> nat \<Rightarrow> byte list list \<times> nat" where
  "copy_rows data n len start =
     fold (\<lambda>i (rows, curr_pos).
             (rows[i := take len (drop curr_pos data) @ drop len (rows ! i)], curr_pos + len))
       [0..<n] start"

definition copy_middle ::
  "byte list \<Rightarrow> nat \<Rightarrow> nat \<Rightarrow> matrix list \<times> nat \<Rightarrow> matrix list \<times> nat" where
  "copy_middle data rounds hidden start =
     fold (\<lambda>r (mats, curr_pos).
             (let (rows, pos) = copy_rows data hidden hidden (cells (mats ! r), curr_pos)
              in (mats[r := (mats ! r)\<lparr>cells := rows\<rparr>], pos)))
       [0..<rounds] start"

text \<open>
  \<open>generate_all_matrices\<close>: when the staging buffer \<open>all_data\<close> cannot be allocated the
  function returns at once and leaves the matrices as they are. The two \<open>std::vector\<close>s
  take their storage from \<open>operator new\<close>, not from \<open>malloc\<close>; they are not part of the
  model. The key is the first 32 bytes of the seed.
\<close>

definition generate_all_matrices ::
  "env \<Rightarrow> PrecomputedMatrices \<Rightarrow> byte list \<Rightarrow> heap \<Rightarrow> PrecomputedMatrices \<times> heap" where
  "generate_all_matrices E matrices seed h =
     (case malloc E h of
        (None, h1) \<Rightarrow> (matrices, h1)
      | (Some all_data, h1) \<Rightarrow>
          (let data = map (ChaCha20_Keystream E (take 32 seed)) [0..<total_size E];
               (ex, pos1) = copy_rows data (HIDDEN E) (IN_SIZE E) (cells (expand_mat matrices), 0);
               (mids, pos2) = copy_middle data (ROUNDS E) (HIDDEN E) (middle_mats matrices, pos1);
               (co, pos3) = copy_rows data (IN_SIZE E) (HIDDEN E) (cells (compress_mat matrices), pos2)
           in (matrices\<lparr>expand_mat := (expand_mat matrices)\<lparr>cells := ex\<rparr>,
                        middle_mats := mids,
                        compress_mat := (compress_mat matrices)\<lparr>cells := co\<rparr>\<rparr>,
               free all_data h1)))"

text \<open>
  \<open>precompute_matrices\<close>: every failing request releases, in the order of the source, what
  was obtained so far and returns \<open>nullptr\<close>; after the last allocation the matrices are
  handed to \<open>generate_all_matrices\<close> and returned.
\<close>

definition precompute_matrices ::
  "env \<Rightarrow> byte list \<Rightarrow> heap \<Rightarrow> PrecomputedMatrices option \<times> heap" where
  "precompute_matrices E seed h =
     (case malloc E h of
        (None, h1) \<Rightarrow> (None, h1)
      | (Some ms, h1) \<Rightarrow>
     (case malloc E h1 of
        (None, h2) \<Rightarrow> (None, free ms h2)
      | (Some ep, h2) \<Rightarrow>
     (case alloc_rows E (HIDDEN E) [] h2 of
        (Inl rows, h3) \<Rightarrow> (None, free ms (free ep (free_rows rows h3)))
      | (Inr erows, h3) \<Rightarrow>
     (case alloc_middle E (ROUNDS E) [] h3 of
        (Inl (done, PtrFailed), h4) \<Rightarrow>
          (None, free ms (free_rounds done (free ep (free_rows erows h4))))
      | (Inl (done, RowFailed p rows), h4) \<Rightarrow>
          (None, free ms (free ep (free_rows erows (free_rounds done (free p (free_rows rows h4))))))
      | (Inr mids, h4) \<Rightarrow>
     (case malloc E h4 of
        (None, h5) \<Rightarrow> (None, free ms (free ep (free_rows erows (free_rounds mids h5))))
      | (Some cp, h5) \<Rightarrow>
     (case alloc_rows E (IN_SIZE E) [] h5 of
        (Inl rows, h6) \<Rightarrow>
          (None, free ms (free ep (free_rows erows (free_rounds mids (free cp (free_rows rows h6))))))
      | (Inr crows, h6) \<Rightarrow>
          (let matrices = \<lparr>pm_block = ms,
                           expand_mat = new_matrix E ep erows (IN_SIZE E),
                           middle_mats = map (\<lambda>(p, rows). new_matrix E p rows (HIDDEN E)) mids,
                           compress_mat = new_matrix E cp crows (HIDDEN E)\<rparr>;
               (matrices', h7) = generate_all_matrices E matrices seed h6
           in (Some matrices', h7))))))))"

text \<open>
  \<open>init_hash_buffers\<close> (the same function in the node's file and in the test harness, whose
  \<open>if (p) free(p)\<close> is \<open>free(p)\<close>): the three buffers are requested before any result is
  looked at; \<open>calloc\<close> returns zeroes, \<open>malloc\<close> indeterminate bytes.
\<close>

definition init_hash_buffers :: "env \<Rightarrow> heap \<Rightarrow> HashBuffers option \<times> heap" where
  "init_hash_buffers E h =
     (case malloc E h of
        (None, h1) \<Rightarrow> (None, h1)
      | (Some buffers, h1) \<Rightarrow>
          (let (st, h2) = malloc E h1;
               (nx, h3) = malloc E h2;
               (no, h4) = malloc E h3
           in case (st, nx, no) of
                (Some s, Some n, Some z) \<Rightarrow>
                  (Some \<lparr>hb_block = buffers,
                         state = (s, replicate (HIDDEN E) 0),
                         next_state = (n, replicate (HIDDEN E) 0),
                         noise = (z, fresh E z (total_noise_size E))\<rparr>, h4)
              | _ \<Rightarrow> (None, free buffers (free_opt no (free_opt nx (free_opt st h4))))))"

definition free_hash_buffers :: "HashBuffers \<Rightarrow> heap \<Rightarrow> heap" where
  "free_hash_buffers buffers h =
     free (hb_block buffers)
       (free (fst (noise buffers)) (free (fst (next_state buffers)) (free (fst (state buffers)) h)))"

text \<open>\<open>free_matrices\<close> of the node's file: every row, then the row pointers, matrix by matrix.\<close>

definition free_matrix :: "nat \<Rightarrow> matrix \<Rightarrow> heap \<Rightarrow> heap" where
  "free_matrix n m h = free (ptrs m) (fold (\<lambda>i h. free (blocks m ! i) h) [0..<n] h)"

definition free_matrices :: "env \<Rightarrow> PrecomputedMatrices \<Rightarrow> heap \<Rightarrow> heap" where
  "free_matrices E matrices h =
     (let h1 = free_matrix (HIDDEN E) (expand_mat matrices) h;
          h2 = fold (\<lambda>r h. free_matrix (HIDDEN E) (middle_mats matrices ! r) h) [0..<ROUNDS E] h1;
          h3 = free_matrix (IN_SIZE E) (compress_mat matrices) h2
      in free (pm_block matrices) h3)"

subsection \<open>The node's file: evaluation and the cache\<close>

text \<open>
  \<open>generate_all_noise\<close>: the SHA-256 digest of the first 32 bytes of the input, repeated
  over the noise buffer (\<open>CSHA256::OUTPUT_SIZE\<close> is 32).
\<close>

definition generate_all_noise :: "env \<Rightarrow> int8 list \<Rightarrow> byte list \<Rightarrow> nat \<Rightarrow> int8 list" where
  "generate_all_noise E noise_buffer input n =
     (let digest = CSHA256 E (take 32 input)
      in fold (\<lambda>i nb. nb[i := digest ! (i mod 32)]) [0..<n] noise_buffer)"

text \<open>One middle round: multiply from \<open>state\<close> into \<open>next_state\<close>, then swap the two pointers.\<close>

definition middle_round ::
  "(byte list list \<Rightarrow> byte list \<Rightarrow> byte list \<Rightarrow> int8 list \<Rightarrow> nat \<Rightarrow> nat \<Rightarrow> byte list) \<Rightarrow>
   env \<Rightarrow> PrecomputedMatrices \<Rightarrow> int8 list \<Rightarrow> nat \<Rightarrow> HashBuffers \<Rightarrow> HashBuffers" where
  "middle_round mm E matrices middle_noise round buffers =
     (let out = mm (cells (middle_mats matrices ! round)) (snd (state buffers))
                  (snd (next_state buffers)) (drop (round * HIDDEN E) middle_noise)
                  (HIDDEN E) (HIDDEN E)
      in buffers\<lparr>state := (fst (next_state buffers), out), next_state := state buffers\<rparr>)"

definition tens_hash_precomputed ::
  "env \<Rightarrow> byte list \<Rightarrow> PrecomputedMatrices \<Rightarrow> HashBuffers \<Rightarrow> byte list \<Rightarrow> HashBuffers \<times> byte list"
  where
  "tens_hash_precomputed E input matrices buffers output =
     (let nz = generate_all_noise E (snd (noise buffers)) input (total_noise_size E);
          b0 = buffers\<lparr>noise := (fst (noise buffers), nz)\<rparr>;
          expand_noise = nz;
          middle_noise = drop (HIDDEN E) nz;
          compress_noise = drop (HIDDEN E + ROUNDS E * HIDDEN E) nz;
          b1 = b0\<lparr>state := (fst (state b0),
                    matrix_multiply (cells (expand_mat matrices)) input (snd (state b0))
                      expand_noise (HIDDEN E) (IN_SIZE E))\<rparr>;
          b2 = fold (middle_round matrix_multiply E matrices middle_noise) [0..<ROUNDS E] b1
      in (b2, matrix_multiply (cells (compress_mat matrices)) (snd (state b2)) output
                compress_noise (IN_SIZE E) (HIDDEN E)))"

text \<open>
  The static variables of \<open>tens_hash\<close>. \<open>memcmp\<close> and \<open>memcpy\<close> on the seed look at
  \<open>IN_SIZE\<close> bytes. The strings built for the log lines that are commented out, and the
  log line itself, have no effect on the result.
\<close>

record cache =
  cacheInitialized :: bool
  cachedSeed :: "byte list"
  cachedMatrices :: "PrecomputedMatrices option"
  cachedBuffers :: "HashBuffers option"

definition cache_init :: "env \<Rightarrow> cache" where
  "cache_init E = \<lparr>cacheInitialized = False, cachedSeed = replicate (IN_SIZE E) 0,
                   cachedMatrices = None, cachedBuffers = None\<rparr>"

definition tens_hash ::
  "env \<Rightarrow> byte list \<Rightarrow> byte list \<Rightarrow> byte list \<Rightarrow> cache \<Rightarrow> heap \<Rightarrow> byte list \<times> cache \<times> heap"
  where
  "tens_hash E input seed output c h =
     (let seedMatches =
            (if cacheInitialized c then take (IN_SIZE E) (cachedSeed c) = take (IN_SIZE E) seed
             else False);
          (c1, h1) =
            (if \<not> cacheInitialized c \<or> \<not> seedMatches then
               (let h2 = (case cachedMatrices c of None \<Rightarrow> h | Some m \<Rightarrow> free_matrices E m h);
                    h3 = (case cachedBuffers c of None \<Rightarrow> h2 | Some b \<Rightarrow> free_hash_buffers b h2);
                    (ms, h4) = precompute_matrices E seed h3;
                    (bs, h5) = init_hash_buffers E h4
                in (\<lparr>cacheInitialized = True, cachedSeed = take (IN_SIZE E) seed,
                     cachedMatrices = ms, cachedBuffers = bs\<rparr>, h5))
             else (c, h))
      in case (cachedMatrices c1, cachedBuffers c1) of
           (Some m, Some b) \<Rightarrow>
             (let (b', output') = tens_hash_precomputed E input m b output
              in (output', c1\<lparr>cachedBuffers := Some b'\<rparr>, h1))
         | _ \<Rightarrow> (output, c1, h1))"

subsection \<open>The test harness: one-shot evaluation\<close>

text \<open>
  In the test harness a matrix is one block of \<open>rows * cols\<close> bytes; row pointer \<open>i\<close> points
  \<open>i * cols\<close> bytes into it.
\<close>

definition row_view :: "nat \<Rightarrow> nat \<Rightarrow> byte list \<Rightarrow> byte list list" where
  "row_view rows cols blk = map (\<lambda>i. take cols (drop (i * cols) blk)) [0..<rows]"

definition new_matrix_tp :: "env \<Rightarrow> nat \<Rightarrow> nat \<Rightarrow> nat \<Rightarrow> nat \<Rightarrow> matrix" where
  "new_matrix_tp E p a rows cols =
     \<lparr>ptrs = p, blocks = [a], cells = row_view rows cols (fresh E a (rows * cols))\<rparr>"

text \<open>The loop over the rounds: the pointer block, then the block of the coefficients.\<close>

datatype middle_failure_tp = PtrFailed_tp | DataFailed_tp nat

fun alloc_middle_tp ::
  "env \<Rightarrow> nat \<Rightarrow> (nat \<times> nat) list \<Rightarrow> heap \<Rightarrow>
   (((nat \<times> nat) list \<times> middle_failure_tp) + (nat \<times> nat) list) \<times> heap" where
  "alloc_middle_tp E 0 done h = (Inr done, h)"
| "alloc_middle_tp E (Suc n) done h =
     (case malloc E h of
        (None, h1) \<Rightarrow> (Inl (done, PtrFailed_tp), h1)
      | (Some p, h1) \<Rightarrow>
          (case malloc E h1 of
             (None, h2) \<Rightarrow> (Inl (done, DataFailed_tp p), h2)
           | (Some a, h2) \<Rightarrow> alloc_middle_tp E n (done @ [(p, a)]) h2))"

definition free_rounds_tp :: "(nat \<times> nat) list \<Rightarrow> heap \<Rightarrow> heap" where
  "free_rounds_tp rounds h = fold (\<lambda>(p, a) h. free p (free a h)) rounds h"

text \<open>
  \<open>generate_matrices\<close>: \<open>exit(1)\<close> when the staging buffer cannot be allocated; otherwise
  the keystream (libsodium's \<open>crypto_stream_chacha20\<close>, all-zero nonce, the 32-byte key)
  is copied matrix by matrix into the coefficient blocks.
\<close>

definition generate_matrices ::
  "env \<Rightarrow> PrecomputedMatrices \<Rightarrow> byte list \<Rightarrow> heap \<Rightarrow> (PrecomputedMatrices \<times> heap) outcome" where
  "generate_matrices E matrices seed h =
     (case malloc E h of
        (None, h1) \<Rightarrow> Exit 1
      | (Some data_blk, h1) \<Rightarrow>
          (let data = map (crypto_stream_chacha20 E (take 32 seed)) [0..<total_size E];
               ex = row_view (HIDDEN E) (IN_SIZE E) (take (HIDDEN E * IN_SIZE E) data);
               pos = HIDDEN E * IN_SIZE E;
               (mids, pos2) =
                 fold (\<lambda>r (mats, pos).
                         (mats[r := (mats ! r)\<lparr>cells := row_view (HIDDEN E) (HIDDEN E)
                                     (take (HIDDEN E * HIDDEN E) (drop pos data))\<rparr>],
                          pos + HIDDEN E * HIDDEN E))
                   [0..<ROUNDS E] (middle_mats matrices, pos);
               co = row_view (IN_SIZE E) (HIDDEN E) (take (IN_SIZE E * HIDDEN E) (drop pos2 data))
           in Return (matrices\<lparr>expand_mat := (expand_mat matrices)\<lparr>cells := ex\<rparr>,
                               middle_mats := mids,
                               compress_mat := (compress_mat matrices)\<lparr>cells := co\<rparr>\<rparr>,
                      free data_blk h1)))"

definition precompute_matrices_tp ::
  "env \<Rightarrow> byte list \<Rightarrow> heap \<Rightarrow> (PrecomputedMatrices option \<times> heap) outcome" where
  "precompute_matrices_tp E seed h =
     (case malloc E h of
        (None, h1) \<Rightarrow> Return (None, h1)
      | (Some ms, h1) \<Rightarrow>
     (case malloc E h1 of
        (None, h2) \<Rightarrow> Return (None, free ms h2)
      | (Some ep, h2) \<Rightarrow>
     (case malloc E h2 of
        (None, h3) \<Rightarrow> Return (None, free ms (free ep h3))
      | (Some ed, h3) \<Rightarrow>
     (case alloc_middle_tp E (ROUNDS E) [] h3 of
        (Inl (done, PtrFailed_tp), h4) \<Rightarrow>
          Return (None, free ms (free ep (free ed (free_rounds_tp done h4))))
      | (Inl (done, DataFailed_tp p), h4) \<Rightarrow>
          Return (None, free ms (free ep (free ed (free p (free_rounds_tp done h4)))))
      | (Inr mids, h4) \<Rightarrow>
     (case malloc E h4 of
        (None, h5) \<Rightarrow> Return (None, free ms (free ep (free ed (free_rounds_tp mids h5))))
      | (Some cp, h5) \<Rightarrow>
     (case malloc E h5 of
        (None, h6) \<Rightarrow>
          Return (None, free ms (free ep (free ed (free cp (free_rounds_tp mids h6)))))
      | (Some cd, h6) \<Rightarrow>
          (let matrices = \<lparr>pm_block = ms,
                           expand_mat = new_matrix_tp E ep ed (HIDDEN E) (IN_SIZE E),
                           middle_mats =
                             map (\<lambda>(p, a). new_matrix_tp E p a (HIDDEN E) (HIDDEN E)) mids,
                           compress_mat = new_matrix_tp E cp cd (IN_SIZE E) (HIDDEN E)\<rparr>
           in case generate_matrices E matrices seed h6 of
                Exit n \<Rightarrow> Exit n
              | Return (matrices', h7) \<Rightarrow> Return (Some matrices', h7))))))))"

text \<open>\<open>free_matrices\<close> of the test harness: block 0 of each matrix, then its row pointers.\<close>

definition free_matrix_tp :: "matrix \<Rightarrow> heap \<Rightarrow> heap" where
  "free_matrix_tp m h = free (ptrs m) (free (blocks m ! 0) h)"

definition free_matrices_tp :: "env \<Rightarrow> PrecomputedMatrices \<Rightarrow> heap \<Rightarrow> heap" where
  "free_matrices_tp E matrices h =
     (let h1 = free_matrix_tp (expand_mat matrices) h;
          h2 = fold (\<lambda>r h. free_matrix_tp (middle_mats matrices ! r) h) [0..<ROUNDS E] h1;
          h3 = free_matrix_tp (compress_mat matrices) h2
      in free (pm_block matrices) h3)"

text \<open>
  \<open>tens_hash_precomputed\<close> of the test harness: the noise loop is inline and the digest
  comes from libsodium's \<open>crypto_hash_sha256\<close> over \<open>IN_SIZE\<close> bytes.
\<close>

definition tens_hash_precomputed_tp ::
  "env \<Rightarrow> byte list \<Rightarrow> PrecomputedMatrices \<Rightarrow> HashBuffers \<Rightarrow> byte list \<Rightarrow> HashBuffers \<times> byte list"
  where
  "tens_hash_precomputed_tp E input matrices buffers output =
     (let digest = crypto_hash_sha256 E (take (IN_SIZE E) input);
          nz = fold (\<lambda>i nb. nb[i := digest ! (i mod 32)]) [0..<total_noise_size E]
                 (snd (noise buffers));
          b0 = buffers\<lparr>noise := (fst (noise buffers), nz)\<rparr>;
          expand_noise = nz;
          middle_noise = drop (HIDDEN E) nz;
          compress_noise = drop (HIDDEN E + ROUNDS E * HIDDEN E) nz;
          b1 = b0\<lparr>state := (fst (state b0),
                    matrix_multiply_tp (cells (expand_mat matrices)) input (snd (state b0))
                      expand_noise (HIDDEN E) (IN_SIZE E))\<rparr>;
          b2 = fold (middle_round matrix_multiply_tp E matrices middle_noise) [0..<ROUNDS E] b1
      in (b2, matrix_multiply_tp (cells (compress_mat matrices)) (snd (state b2)) output
                compress_noise (IN_SIZE E) (HIDDEN E)))"

text \<open>
  \<open>tens_hash\<close> of the test harness: build, evaluate once, release; \<open>exit(1)\<close> when the
  matrices or the buffers could not be built.
\<close>

definition tens_hash_tp ::
  "env \<Rightarrow> byte list \<Rightarrow> byte list \<Rightarrow> byte list \<Rightarrow> heap \<Rightarrow> (byte list \<times> heap) outcome" where
  "tens_hash_tp E input seed output h =
     (case precompute_matrices_tp E seed h of
        Exit n \<Rightarrow> Exit n
      | Return (None, h1) \<Rightarrow> Exit 1
      | Return (Some matrices, h1) \<Rightarrow>
          (case init_hash_buffers E h1 of
             (None, h2) \<Rightarrow> Exit 1
           | (Some buffers, h2) \<Rightarrow>
               (let (buffers', output') = tens_hash_precomputed_tp E input matrices buffers output;
                    h3 = free_matrices_tp E matrices h2;
                    h4 = free_hash_buffers buffers' h3
                in Return (output', h4))))"

section \<open>Mode B: the ternary threshold cascade\<close>

text \<open>
  The context of \<open>tens_hash.cpp\<close>: three flat weight arrays and the two state buffers, each
  given by its contents (\<open>ctx_state\<close> and \<open>ctx_next_state\<close> are the fields \<open>state\<close> and
  \<open>next_state\<close>). \<open>TENS_IN_SIZE\<close>, \<open>TENS_HIDDEN\<close> and \<open>NUM_HIDDEN_LAYERS\<close> are the
  environment's \<open>IN_SIZE\<close>, \<open>HIDDEN\<close> and \<open>ROUNDS\<close>. What the functions print is not modelled.
\<close>

record TensHashContext =
  expansion_mat :: "int8 list"
  hidden_mats :: "int8 list"
  compression_mat :: "int8 list"
  ctx_state :: "int8 list"
  ctx_next_state :: "int8 list"

definition INPUT_BITS :: "env \<Rightarrow> nat" where
  "INPUT_BITS E = IN_SIZE E * 8"

text \<open>
  \<open>layer_forward\<close>: \<open>x_mapped\<close> is a fresh block, filled by the first loop; \<open>exit(1)\<close> when it
  cannot be allocated. The accumulator \<open>sum\<close> is an \<open>int32_t\<close>.
\<close>

definition layer_forward ::
  "env \<Rightarrow> int8 list \<Rightarrow> nat \<Rightarrow> nat \<Rightarrow> int8 list \<Rightarrow> int8 list \<Rightarrow> heap \<Rightarrow> (int8 list \<times> heap) outcome"
  where
  "layer_forward E matrix in_dim out_dim input output h =
     (case malloc E h of
        (None, h1) \<Rightarrow> Exit 1
      | (Some xa, h1) \<Rightarrow>
          (let x_mapped = fold (\<lambda>i xm. xm[i := word_of_int (2 * sint (input ! i) - 1)])
                            [0..<in_dim] (fresh E xa in_dim);
               output' =
                 fold (\<lambda>j out.
                         (let sum = fold (\<lambda>i sum. sum + (scast (matrix ! (j * in_dim + i)) :: int32)
                                                      * scast (x_mapped ! i))
                                      [0..<in_dim] 0;
                              sum' = (if in_dim = out_dim then sum + scast (x_mapped ! j) else sum)
                          in out[j := (if 0 < sint sum' then 1 else 0)]))
                   [0..<out_dim] output
           in Return (output', free xa h1)))"

text \<open>\<open>pack_bits\<close>: \<open>memset\<close>, then one bit at a time.\<close>

definition pack_bits :: "env \<Rightarrow> int8 list \<Rightarrow> byte list \<Rightarrow> byte list" where
  "pack_bits E bits out_bytes =
     fold (\<lambda>i ob. if bits ! i \<noteq> 0
                   then ob[i div 8 := ob ! (i div 8) OR push_bit (7 - i mod 8) 1]
                   else ob)
       [0..<INPUT_BITS E] (replicate (IN_SIZE E) 0 @ drop (IN_SIZE E) out_bytes)"

text \<open>The hidden layers, each followed by the swap of the two state pointers.\<close>

fun hidden_layers ::
  "env \<Rightarrow> nat \<Rightarrow> nat \<Rightarrow> TensHashContext \<Rightarrow> heap \<Rightarrow> (TensHashContext \<times> heap) outcome" where
  "hidden_layers E 0 r ctx h = Return (ctx, h)"
| "hidden_layers E (Suc n) r ctx h =
     (case layer_forward E (drop (r * HIDDEN E * HIDDEN E) (hidden_mats ctx)) (HIDDEN E) (HIDDEN E)
             (ctx_state ctx) (ctx_next_state ctx) h of
        Exit k \<Rightarrow> Exit k
      | Return (out, h1) \<Rightarrow>
          hidden_layers E n (Suc r) (ctx\<lparr>ctx_state := out, ctx_next_state := ctx_state ctx\<rparr>) h1)"

text \<open>
  The three stages of \<open>tens_hash_precomputed\<close> between the unpacking of the input and the
  packing of the result: expansion (with swap), hidden layers, compression (into
  \<open>next_state\<close>, no swap).
\<close>

definition forward_layers ::
  "env \<Rightarrow> TensHashContext \<Rightarrow> heap \<Rightarrow> (TensHashContext \<times> heap) outcome" where
  "forward_layers E ctx h =
     (case layer_forward E (expansion_mat ctx) (INPUT_BITS E) (HIDDEN E)
             (ctx_state ctx) (ctx_next_state ctx) h of
        Exit k \<Rightarrow> Exit k
      | Return (out, h1) \<Rightarrow>
     (case hidden_layers E (ROUNDS E) 0 (ctx\<lparr>ctx_state := out, ctx_next_state := ctx_state ctx\<rparr>) h1 of
        Exit k \<Rightarrow> Exit k
      | Return (ctx2, h2) \<Rightarrow>
     (case layer_forward E (compression_mat ctx2) (HIDDEN E) (INPUT_BITS E)
             (ctx_state ctx2) (ctx_next_state ctx2) h2 of
        Exit k \<Rightarrow> Exit k
      | Return (out, h3) \<Rightarrow> Return (ctx2\<lparr>ctx_next_state := out\<rparr>, h3))))"

text \<open>
  \<open>tens_hash_precomputed\<close> of \<open>tens_hash.cpp\<close>. A null context returns at once; \<open>input\<close>
  and \<open>output\<close> are arrays here and cannot be null.
\<close>

definition tens_hash_precomputed_tern ::
  "env \<Rightarrow> byte list \<Rightarrow> TensHashContext option \<Rightarrow> byte list \<Rightarrow> heap \<Rightarrow>
   (byte list \<times> TensHashContext option \<times> heap) outcome" where
  "tens_hash_precomputed_tern E input ctx output h =
     (case ctx of
        None \<Rightarrow> Return (output, None, h)
      | Some ctx \<Rightarrow>
          (let input_swapped = map (\<lambda>i. input ! (IN_SIZE E - 1 - i)) [0..<IN_SIZE E];
               cleared = replicate (HIDDEN E) 0 @ drop (HIDDEN E) (ctx_state ctx);
               st = fold (\<lambda>i st. fold (\<lambda>j st. st[i * 8 + j :=
                                               drop_bit (7 - j) (input_swapped ! i) AND 1])
                                    [0..<8] st)
                      [0..<IN_SIZE E] cleared
           in case forward_layers E (ctx\<lparr>ctx_state := st\<rparr>) h of
                Exit k \<Rightarrow> Exit k
              | Return (ctx', h') \<Rightarrow>
                  (let final_state = take (INPUT_BITS E) (ctx_next_state ctx');
                       packed = pack_bits E final_state output;
                       output_swapped = map (\<lambda>i. packed ! (IN_SIZE E - 1 - i)) [0..<IN_SIZE E]
                   in Return (output_swapped @ drop (IN_SIZE E) packed, Some ctx', h'))))"

section \<open>The hex decoder of the test harness\<close>

text \<open>
  \<open>hexchar_to_int\<close>: the character as its code (the three ranges lie below 128, so the
  signedness of \<open>char\<close> plays no role).
\<close>

definition hexchar_to_int :: "char \<Rightarrow> int" where
  "hexchar_to_int c =
     (if of_char c \<ge> (of_char CHR ''0'' :: int) \<and> of_char c \<le> (of_char CHR ''9'' :: int)
        then of_char c - of_char CHR ''0''
      else if of_char c \<ge> (of_char CHR ''a'' :: int) \<and> of_char c \<le> (of_char CHR ''f'' :: int)
        then of_char c - of_char CHR ''a'' + 10
      else if of_char c \<ge> (of_char CHR ''A'' :: int) \<and> of_char c \<le> (of_char CHR ''F'' :: int)
        then of_char c - of_char CHR ''A'' + 10
      else - 1)"

text \<open>
  \<open>hex[k]\<close>: a C string ends with a NUL character, which is what a read at its length sees.
\<close>

definition hex_at :: "string \<Rightarrow> nat \<Rightarrow> char" where
  "hex_at hex k = (if k < length hex then hex ! k else CHR 0x00)"

text \<open>
  The loop of \<open>parse_hex\<close>, with \<open>n\<close> iterations left at index \<open>i\<close>; then \<open>parse_hex\<close>, whose
  \<open>out_len * 2\<close> is computed in \<open>size_t\<close> (64 bits).
\<close>

fun parse_hex_loop :: "string \<Rightarrow> nat \<Rightarrow> nat \<Rightarrow> byte list \<Rightarrow> int \<times> byte list" where
  "parse_hex_loop hex 0 i out = (0, out)"
| "parse_hex_loop hex (Suc n) i out =
     (let hi = hexchar_to_int (hex_at hex (2 * i));
          lo = hexchar_to_int (hex_at hex (2 * i + 1))
      in if hi < 0 \<or> lo < 0 then (- 1, out)
         else parse_hex_loop hex n (Suc i) (out[i := word_of_int (push_bit 4 hi OR lo)]))"

definition parse_hex :: "string \<Rightarrow> nat \<Rightarrow> byte list \<Rightarrow> nat \<Rightarrow> int \<times> byte list" where
  "parse_hex hex hex_len out out_len =
     (if hex_len \<noteq> unat (of_nat out_len * 2 :: 64 word) then (- 1, out)
      else parse_hex_loop hex out_len 0 out)"

text \<open>
  What the specification calls a valid hexadecimal digit, and the two notions the
  statements about \<open>parse_hex\<close> use: pair \<open>j\<close> of the string consists of two valid digits;
  the byte that pair \<open>j\<close> decodes to.
\<close>

definition is_hex_digit :: "char \<Rightarrow> bool" where
  "is_hex_digit c = (c \<in> set ''0123456789abcdefABCDEF'')"

definition pair_ok :: "string \<Rightarrow> nat \<Rightarrow> bool" where
  "pair_ok hex j = (is_hex_digit (hex ! (2 * j)) \<and> is_hex_digit (hex ! (2 * j + 1)))"

definition hex_byte :: "string \<Rightarrow> nat \<Rightarrow> byte" where
  "hex_byte hex j =
     word_of_int (16 * hexchar_to_int (hex ! (2 * j)) + hexchar_to_int (hex ! (2 * j + 1)))"

text \<open>
  The Mode B layer as the specification words it: output bit \<open>j\<close> is 1 exactly when the
  integer dot product of weight row \<open>j\<close> with the input mapped to \<open>2b - 1\<close>, plus the mapped
  input's element \<open>j\<close> when the two dimensions are equal, is greater than 0.
\<close>

definition layer_spec :: "int8 list \<Rightarrow> nat \<Rightarrow> nat \<Rightarrow> int8 list \<Rightarrow> nat \<Rightarrow> int8" where
  "layer_spec matrix in_dim out_dim input j =
     (if (\<Sum>i<in_dim. sint (matrix ! (j * in_dim + i)) * (2 * sint (input ! i) - 1))
           + (if in_dim = out_dim then 2 * sint (input ! j) - 1 else 0) > 0
      then 1 else 0)"

text \<open>
  Bytes as bits and back, most significant bit first: the first bit of a byte is its bit 7.
\<close>

definition bits_of_byte :: "byte \<Rightarrow> int8 list" where
  "bits_of_byte b = map (\<lambda>j. if bit b (7 - j) then 1 else 0) [0..<8]"

definition unpack_msb :: "byte list \<Rightarrow> int8 list" where
  "unpack_msb bytes = concat (map bits_of_byte bytes)"

definition byte_of_bits :: "bool list \<Rightarrow> byte" where
  "byte_of_bits bs = foldl (\<lambda>w b. 2 * w + of_bool b) 0 bs"

definition pack_msb :: "nat \<Rightarrow> int8 list \<Rightarrow> byte list" where
  "pack_msb n bits = map (\<lambda>k. byte_of_bits (map (\<lambda>m. bits ! (k * 8 + m) \<noteq> 0) [0..<8])) [0..<n]"

section \<open>Notions used in the statements\<close>

subsection \<open>Requests, blocks and the growth of the heap\<close>

text \<open>
  \<open>no_fail E b n\<close>: none of the \<open>n\<close> requests numbered from \<open>b\<close> fails. An event is fresh
  above \<open>b\<close> when it concerns a block that was requested at or after request \<open>b\<close>. A heap is
  well formed when every live block was handed out by an earlier request. \<open>grows h h' S\<close>:
  from \<open>h\<close> to \<open>h'\<close> the blocks \<open>S\<close>, all of them new, were added to the live blocks and nothing
  that was live in \<open>h\<close> was touched.
\<close>

definition no_fail :: "env \<Rightarrow> nat \<Rightarrow> nat \<Rightarrow> bool" where
  "no_fail E b n = (\<forall>k<n. \<not> malloc_fails E (b + k))"

definition fresh_event :: "nat \<Rightarrow> event \<Rightarrow> bool" where
  "fresh_event b e = (case e of Malloc a \<Rightarrow> b \<le> a | Free a \<Rightarrow> b \<le> a | MallocFail \<Rightarrow> True)"

definition wf_heap :: "heap \<Rightarrow> bool" where
  "wf_heap h = (\<forall>a\<in>live h. a < brk h)"

definition grows :: "heap \<Rightarrow> heap \<Rightarrow> nat set \<Rightarrow> bool" where
  "grows h h' S =
     (brk h \<le> brk h' \<and> (\<forall>a\<in>S. brk h \<le> a \<and> a < brk h') \<and> live h' = live h \<union> S \<and>
      (\<exists>evs. trace h' = trace h @ evs \<and> (\<forall>e\<in>set evs. fresh_event (brk h) e)))"

text \<open>The blocks held by the middle matrices built so far, and by the one under construction.\<close>

definition rounds_blocks :: "(nat \<times> nat list) list \<Rightarrow> nat set" where
  "rounds_blocks rounds = (\<Union>(p, rows)\<in>set rounds. insert p (set rows))"

definition failure_blocks :: "middle_failure \<Rightarrow> nat set" where
  "failure_blocks f = (case f of PtrFailed \<Rightarrow> {} | RowFailed p rows \<Rightarrow> insert p (set rows))"

subsection \<open>The contents of a matrix set\<close>

text \<open>
  \<open>slice_rows ks off rows cols\<close> is the \<open>rows\<close> by \<open>cols\<close> matrix read row by row from the
  keystream \<open>ks\<close>, starting at byte \<open>off\<close>. A matrix set is filled from \<open>ks\<close> when the expansion
  matrix, the middle matrices and the compression matrix are the consecutive slices of \<open>ks\<close>,
  in this order. It is unfilled when every row still has the indeterminate contents that
  \<open>malloc\<close> left in its block.
\<close>

definition slice_rows :: "(nat \<Rightarrow> byte) \<Rightarrow> nat \<Rightarrow> nat \<Rightarrow> nat \<Rightarrow> byte list list" where
  "slice_rows ks off rows cols = map (\<lambda>i. map (\<lambda>j. ks (off + i * cols + j)) [0..<cols]) [0..<rows]"

definition filled_from :: "(nat \<Rightarrow> byte) \<Rightarrow> env \<Rightarrow> PrecomputedMatrices \<Rightarrow> bool" where
  "filled_from ks E ms =
     (cells (expand_mat ms) = slice_rows ks 0 (HIDDEN E) (IN_SIZE E) \<and>
      map cells (middle_mats ms) =
        map (\<lambda>r. slice_rows ks (HIDDEN E * IN_SIZE E + r * (HIDDEN E * HIDDEN E)) (HIDDEN E) (HIDDEN E))
          [0..<ROUNDS E] \<and>
      cells (compress_mat ms) =
        slice_rows ks (HIDDEN E * IN_SIZE E + ROUNDS E * (HIDDEN E * HIDDEN E)) (IN_SIZE E) (HIDDEN E))"

definition unfilled :: "env \<Rightarrow> PrecomputedMatrices \<Rightarrow> bool" where
  "unfilled E ms =
     (cells (expand_mat ms) = map (\<lambda>a. fresh E a (IN_SIZE E)) (blocks (expand_mat ms)) \<and>
      (\<forall>m\<in>set (middle_mats ms). cells m = map (\<lambda>a. fresh E a (HIDDEN E)) (blocks m)) \<and>
      cells (compress_mat ms) = map (\<lambda>a. fresh E a (HIDDEN E)) (blocks (compress_mat ms)))"

text \<open>
  The blocks of a matrix set and of the buffers; the number of requests \<open>precompute_matrices\<close>
  makes for the structure, the row pointers and the rows, before the staging buffer; and the
  number of rows each matrix of a set has.
\<close>

definition matrix_blocks :: "matrix \<Rightarrow> nat set" where
  "matrix_blocks m = insert (ptrs m) (set (blocks m))"

definition matrices_blocks :: "PrecomputedMatrices \<Rightarrow> nat set" where
  "matrices_blocks ms =
     insert (pm_block ms)
       (matrix_blocks (expand_mat ms) \<union> (\<Union>m\<in>set (middle_mats ms). matrix_blocks m)
        \<union> matrix_blocks (compress_mat ms))"

definition buffers_blocks :: "HashBuffers \<Rightarrow> nat set" where
  "buffers_blocks b = {hb_block b, fst (state b), fst (next_state b), fst (noise b)}"

definition struct_requests :: "env \<Rightarrow> nat" where
  "struct_requests E = 2 + HIDDEN E + ROUNDS E * Suc (HIDDEN E) + 1 + IN_SIZE E"

definition row_layout :: "env \<Rightarrow> PrecomputedMatrices \<Rightarrow> bool" where
  "row_layout E ms =
     (length (blocks (expand_mat ms)) = HIDDEN E \<and> length (middle_mats ms) = ROUNDS E \<and>
      (\<forall>m\<in>set (middle_mats ms). length (blocks m) = HIDDEN E) \<and>
      length (blocks (compress_mat ms)) = IN_SIZE E)"

text \<open>
  The lengths of the three arrays of the buffers. \<open>released h h' as\<close>: from \<open>h\<close> to \<open>h'\<close>
  exactly the blocks \<open>as\<close> were freed, in this order, and nothing was requested.
\<close>

definition buffers_shape :: "env \<Rightarrow> HashBuffers \<Rightarrow> bool" where
  "buffers_shape E b =
     (length (snd (state b)) = HIDDEN E \<and> length (snd (next_state b)) = HIDDEN E \<and>
      length (snd (noise b)) = total_noise_size E)"

definition released :: "heap \<Rightarrow> heap \<Rightarrow> nat list \<Rightarrow> bool" where
  "released h h' as = (brk h' = brk h \<and> live h' = live h - set as \<and> trace h' = trace h @ map Free as)"

text \<open>The blocks of a matrix, of a matrix set and of the buffers, in the order they are freed.\<close>

definition matrix_list :: "matrix \<Rightarrow> nat list" where
  "matrix_list m = blocks m @ [ptrs m]"

definition matrices_list :: "PrecomputedMatrices \<Rightarrow> nat list" where
  "matrices_list ms =
     matrix_list (expand_mat ms) @ concat (map matrix_list (middle_mats ms))
       @ matrix_list (compress_mat ms) @ [pm_block ms]"

definition buffers_list :: "HashBuffers \<Rightarrow> nat list" where
  "buffers_list b = [fst (state b), fst (next_state b), fst (noise b), hb_block b]"

subsection \<open>The cascade as a function\<close>

text \<open>
  One layer as a function of its arguments, and the cascade of the expansion layer, the
  middle rounds and the compression layer, the noise being the digest repeated.
  \<open>pipeline\<close> is the common shape of \<open>tens_hash_precomputed\<close> in the node's file and in the
  test harness, for a given layer operation and digest.
\<close>

definition affine_layer :: "byte list list \<Rightarrow> byte list \<Rightarrow> int8 list \<Rightarrow> nat \<Rightarrow> nat \<Rightarrow> byte list" where
  "affine_layer A inp e rows cols =
     map (\<lambda>i. word_of_int ((\<Sum>j<cols. int (unat (A ! i ! j)) * int (unat (inp ! j))) + sint (e ! i)))
       [0..<rows]"

definition cascade ::
  "env \<Rightarrow> byte list \<Rightarrow> byte list list \<Rightarrow> byte list list list \<Rightarrow> byte list list \<Rightarrow> byte list \<Rightarrow> byte list"
  where
  "cascade E digest ce cms cc input =
     (let nz = map (\<lambda>i. digest ! (i mod 32)) [0..<total_noise_size E];
          s0 = affine_layer ce input nz (HIDDEN E) (IN_SIZE E);
          s = fold (\<lambda>r s. affine_layer (cms ! r) s (drop (HIDDEN E + r * HIDDEN E) nz)
                              (HIDDEN E) (HIDDEN E)) [0..<ROUNDS E] s0
      in affine_layer cc s (drop (HIDDEN E + ROUNDS E * HIDDEN E) nz) (IN_SIZE E) (HIDDEN E))"

definition pipeline ::
  "(byte list list \<Rightarrow> byte list \<Rightarrow> byte list \<Rightarrow> int8 list \<Rightarrow> nat \<Rightarrow> nat \<Rightarrow> byte list) \<Rightarrow>
   env \<Rightarrow> byte list \<Rightarrow> byte list \<Rightarrow> PrecomputedMatrices \<Rightarrow> HashBuffers \<Rightarrow> byte list \<Rightarrow>
   HashBuffers \<times> byte list" where
  "pipeline mm E digest input matrices buffers output =
     (let nz = fold (\<lambda>i nb. nb[i := digest ! (i mod 32)]) [0..<total_noise_size E]
                 (snd (noise buffers));
          b0 = buffers\<lparr>noise := (fst (noise buffers), nz)\<rparr>;
          expand_noise = nz;
          middle_noise = drop (HIDDEN E) nz;
          compress_noise = drop (HIDDEN E + ROUNDS E * HIDDEN E) nz;
          b1 = b0\<lparr>state := (fst (state b0),
                    mm (cells (expand_mat matrices)) input (snd (state b0))
                      expand_noise (HIDDEN E) (IN_SIZE E))\<rparr>;
          b2 = fold (middle_round mm E matrices middle_noise) [0..<ROUNDS E] b1
      in (b2, mm (cells (compress_mat matrices)) (snd (state b2)) output
                compress_noise (IN_SIZE E) (HIDDEN E)))"

subsection \<open>The cache\<close>

text \<open>
  A call hits the cache when the cache is initialised and its seed equals the requested
  one on \<open>IN_SIZE\<close> bytes. \<open>cache_inv E c h X\<close>: the live blocks of the heap are the blocks
  \<open>X\<close> of the rest of the process and, apart from them, exactly the blocks of the one matrix
  set and the one set of buffers the cache points to. \<open>evict\<close> is the release of the cached
  entry at the beginning of a miss.
\<close>

definition cache_hit :: "env \<Rightarrow> cache \<Rightarrow> byte list \<Rightarrow> bool" where
  "cache_hit E c seed = (cacheInitialized c \<and> take (IN_SIZE E) (cachedSeed c) = take (IN_SIZE E) seed)"

definition cache_list :: "cache \<Rightarrow> nat list" where
  "cache_list c =
     (case cachedMatrices c of None \<Rightarrow> [] | Some m \<Rightarrow> matrices_list m)
     @ (case cachedBuffers c of None \<Rightarrow> [] | Some b \<Rightarrow> buffers_list b)"

definition cache_blocks :: "cache \<Rightarrow> nat set" where
  "cache_blocks c =
     (case cachedMatrices c of None \<Rightarrow> {} | Some m \<Rightarrow> matrices_blocks m)
     \<union> (case cachedBuffers c of None \<Rightarrow> {} | Some b \<Rightarrow> buffers_blocks b)"

definition cache_inv :: "env \<Rightarrow> cache \<Rightarrow> heap \<Rightarrow> nat set \<Rightarrow> bool" where
  "cache_inv E c h X =
     (wf_heap h \<and> live h = X \<union> cache_blocks c \<and> X \<inter> cache_blocks c = {} \<and>
      (case cachedMatrices c of None \<Rightarrow> True | Some m \<Rightarrow> row_layout E m) \<and>
      (case cachedBuffers c of None \<Rightarrow> True | Some b \<Rightarrow> buffers_shape E b))"

definition evict :: "env \<Rightarrow> cache \<Rightarrow> heap \<Rightarrow> heap" where
  "evict E c h =
     (let h2 = (case cachedMatrices c of None \<Rightarrow> h | Some m \<Rightarrow> free_matrices E m h)
      in (case cachedBuffers c of None \<Rightarrow> h2 | Some b \<Rightarrow> free_hash_buffers b h2))"

text \<open>
  A cache is in order when, once initialised, it holds the matrices of its seed and buffers
  of the right lengths. \<open>tens_hash_value\<close> is the digest as a function of the seed and the
  input: the cascade over the slices of the keystream of the seed.
\<close>

definition cache_ok :: "env \<Rightarrow> cache \<Rightarrow> bool" where
  "cache_ok E c =
     (cacheInitialized c \<longrightarrow>
        (\<exists>m b. cachedMatrices c = Some m \<and> cachedBuffers c = Some b \<and>
               filled_from (ChaCha20_Keystream E (take 32 (cachedSeed c))) E m \<and>
               buffers_shape E b))"

definition tens_hash_value :: "env \<Rightarrow> byte list \<Rightarrow> byte list \<Rightarrow> byte list" where
  "tens_hash_value E seed input =
     (let ks = ChaCha20_Keystream E (take 32 seed)
      in cascade E (CSHA256 E (take 32 input))
           (slice_rows ks 0 (HIDDEN E) (IN_SIZE E))
           (map (\<lambda>r. slice_rows ks (HIDDEN E * IN_SIZE E + r * (HIDDEN E * HIDDEN E))
                        (HIDDEN E) (HIDDEN E)) [0..<ROUNDS E])
           (slice_rows ks (HIDDEN E * IN_SIZE E + ROUNDS E * (HIDDEN E * HIDDEN E))
              (IN_SIZE E) (HIDDEN E))
           input)"


section \<open>Example environments\<close>

text \<open>
  An environment with the dimensions of the test harness, an allocator that never fails,
  and stand-ins for the two library functions; and a small one for evaluation.
\<close>

definition example_env :: env where
  "example_env =
     \<lparr>IN_SIZE = 32, HIDDEN = 1024, ROUNDS = 64,
      ChaCha20_Keystream = (\<lambda>key i. key ! (i mod 32) + of_nat i),
      CSHA256 = (\<lambda>m. map (\<lambda>i. m ! i + of_nat i) [0..<32]),
      crypto_stream_chacha20 = (\<lambda>key i. key ! (i mod 32) + of_nat i),
      crypto_hash_sha256 = (\<lambda>m. map (\<lambda>i. m ! i + of_nat i) [0..<32]),
      malloc_fails = (\<lambda>n. False),
      junk = (\<lambda>a i. 0xAA)\<rparr>"

definition small_env :: env where
  "small_env = example_env\<lparr>IN_SIZE := 2, HIDDEN := 16, ROUNDS := 1\<rparr>"

definition small_ctx :: TensHashContext where
  "small_ctx =
     \<lparr>expansion_mat = map (\<lambda>k. if k mod 3 = 0 then 1 else if k mod 3 = 1 then 0 else - 1) [0..<256],
      hidden_mats = map (\<lambda>k. if k mod 5 = 0 then - 1 else if k mod 5 = 2 then 1 else 0) [0..<256],
      compression_mat = map (\<lambda>k. if k mod 7 = 1 then 1 else if k mod 7 = 2 then - 1 else 0) [0..<256],
      ctx_state = replicate 16 0,
      ctx_next_state = replicate 16 0\<rparr>"


definition staging_env :: env where
  "staging_env = example_env\<lparr>malloc_fails := (\<lambda>n. n = 66659)\<rparr>"

text \<open>
  Two environments with 32 bytes of input, two hidden units and one round, small enough to
  run the cached path. In the first the only request that fails is number 40, the request
  for the staging buffer when the heap is new (\<open>2 + 2 + 1 * 3 + 1 + 32\<close> requests come
  before it). In the second the first four requests fail and no other.
\<close>

definition staging_small_env :: env where
  "staging_small_env = example_env\<lparr>HIDDEN := 2, ROUNDS := 1, malloc_fails := (\<lambda>n. n = 40)\<rparr>"


section \<open>Properties\<close>

subsection \<open>Index iterations that fill an array\<close>

lemma fold_update_upt:
  "n \<le> length out \<Longrightarrow> fold (\<lambda>i out. out[i := f i]) [0..<n] out = map f [0..<n] @ drop n out"
proof (induction n)
  case 0 then show ?case by simp
next
  case (Suc n)
  then have "fold (\<lambda>i out. out[i := f i]) [0..<Suc n] out = (map f [0..<n] @ drop n out)[n := f n]"
    by simp
  also have "\<dots> = map f [0..<n] @ (drop n out)[0 := f n]"
    by (simp add: list_update_append)
  also have "(drop n out)[0 := f n] = f n # drop (Suc n) out"
    using Suc.prems by (metis Cons_nth_drop_Suc Suc_le_lessD list_update_code(2))
  finally show ?case by simp
qed

lemma fold_update_upt_nth:
  assumes "i < n" and "n \<le> length out"
  shows "fold (\<lambda>i out. out[i := f i]) [0..<n] out ! i = f i"
proof -
  have "fold (\<lambda>i out. out[i := f i]) [0..<n] out = map f [0..<n] @ drop n out"
    using assms(2) by (rule fold_update_upt)
  then show ?thesis using assms(1) by (simp add: nth_append)
qed

subsection \<open>The Mode A layer operation\<close>

lemma ucast_nat: "(ucast (w :: byte) :: int32) = of_nat (unat w)"
  by (simp only: of_nat_unat)

lemma row_sum_word:
  "row_sum row inp cols = of_nat (\<Sum>j<cols. unat (row ! j) * unat (inp ! j))"
proof (induction cols)
  case 0 then show ?case by (simp add: row_sum_def)
next
  case (Suc n)
  have "row_sum row inp (Suc n) = row_sum row inp n + ucast (row ! n) * ucast (inp ! n)"
    by (simp add: row_sum_def)
  also have "\<dots> = of_nat (\<Sum>j<n. unat (row ! j) * unat (inp ! j))
                   + of_nat (unat (row ! n)) * of_nat (unat (inp ! n))"
    by (simp only: Suc.IH ucast_nat)
  also have "\<dots> = of_nat ((\<Sum>j<n. unat (row ! j) * unat (inp ! j))
                   + unat (row ! n) * unat (inp ! n))"
    by (simp only: of_nat_add of_nat_mult)
  finally show ?case by (simp only: sum.lessThan_Suc)
qed

lemma low8_uint: "uint ((ucast (word_of_int k :: int32) :: byte)) = k mod 256"
proof -
  have "uint ((ucast (word_of_int k :: int32) :: byte)) = take_bit 8 (uint (word_of_int k :: int32))"
    by (simp add: unsigned_ucast_eq)
  also have "\<dots> = take_bit 8 (take_bit 32 k)"
    by (simp add: uint_word_of_int_eq)
  also have "\<dots> = take_bit 8 k" by simp
  finally show ?thesis by (simp add: take_bit_eq_mod)
qed

lemma low8_unat: "unat ((ucast (word_of_int k :: int32) :: byte)) = nat (k mod 256)"
  by (simp add: unat_eq_nat_uint low8_uint)

lemma and_FF: "(x :: byte) AND 0xFF = x"
proof -
  have "(0xFF :: byte) = - 1" by simp
  then show ?thesis by (metis and.right_neutral)
qed

lemma layer_cell:
  "unat ((ucast (row_sum row inp cols + scast (x :: int8)) :: byte) AND 0xFF) =
   nat (((\<Sum>j<cols. int (unat (row ! j)) * int (unat (inp ! j))) + sint x) mod 256)"
proof -
  have "row_sum row inp cols = word_of_int (int (\<Sum>j<cols. unat (row ! j) * unat (inp ! j)))"
    by (simp only: row_sum_word of_int_of_nat_eq)
  also have "int (\<Sum>j<cols. unat (row ! j) * unat (inp ! j)) =
             (\<Sum>j<cols. int (unat (row ! j)) * int (unat (inp ! j)))"
    by (simp only: of_nat_sum of_nat_mult)
  finally have "row_sum row inp cols + scast x =
        word_of_int ((\<Sum>j<cols. int (unat (row ! j)) * int (unat (inp ! j))) + sint x)"
    by simp
  then show ?thesis unfolding and_FF by (simp only: low8_unat)
qed

text \<open>
  Claim C5. In Mode A the layer operation writes, at every output index \<open>i\<close> below \<open>rows\<close>,
  the low 8 bits of \<open>\<Sum>j<cols. A[i][j] * in[j] + e[i]\<close>, the sum taken over the integers
  (the \<open>int32_t\<close> accumulator wraps, which does not change the low 8 bits; nothing
  saturates). This holds for \<open>matrix_multiply\<close> of the node's file and of the test harness.
\<close>

theorem matrix_multiply_low_8_bits:
  assumes "i < rows" and "rows \<le> length out"
  shows "unat (matrix_multiply A inp out e rows cols ! i) =
           nat (((\<Sum>j<cols. int (unat (A ! i ! j)) * int (unat (inp ! j))) + sint (e ! i)) mod 256)
       \<and> unat (matrix_multiply_tp A inp out e rows cols ! i) =
           nat (((\<Sum>j<cols. int (unat (A ! i ! j)) * int (unat (inp ! j))) + sint (e ! i)) mod 256)"
proof
  have "matrix_multiply A inp out e rows cols ! i =
          mod256 (row_sum (A ! i) inp cols + scast (e ! i))"
    unfolding matrix_multiply_def using assms by (rule fold_update_upt_nth)
  then show "unat (matrix_multiply A inp out e rows cols ! i) =
           nat (((\<Sum>j<cols. int (unat (A ! i ! j)) * int (unat (inp ! j))) + sint (e ! i)) mod 256)"
    by (simp only: mod256_def layer_cell)
  have "matrix_multiply_tp A inp out e rows cols ! i =
          (ucast (row_sum (A ! i) inp cols + scast (e ! i)) :: byte) AND 0xFF"
    unfolding matrix_multiply_tp_def using assms by (rule fold_update_upt_nth)
  then show "unat (matrix_multiply_tp A inp out e rows cols ! i) =
           nat (((\<Sum>j<cols. int (unat (A ! i ! j)) * int (unat (inp ! j))) + sint (e ! i)) mod 256)"
    by (simp only: layer_cell)
qed

text \<open>
  Witness for C5: row 1 of a 2 by 2 matrix, \<open>3 * 2 + 255 * 255 - 128 = 64903\<close>, whose low 8
  bits are 135.
\<close>

theorem matrix_multiply_low_8_bits_witness:
  "unat (matrix_multiply [[1, 2], [3, 255]] [2, 255] [0, 0] [0, 0x80] 2 2 ! 1) = 135
 \<and> unat (matrix_multiply_tp [[1, 2], [3, 255]] [2, 255] [0, 0] [0, 0x80] 2 2 ! 1) = 135"
proof -
  have s2: "(\<Sum>j<2. f j) = f 0 + f 1" for f :: "nat \<Rightarrow> int"
    by (simp add: numeral_2_eq_2)
  have "(1::nat) < 2" "(2::nat) \<le> length [0::byte, 0]" by simp_all
  from matrix_multiply_low_8_bits [OF this, of "[[1, 2], [3, 255]]" "[2, 255]" "[0, 0x80]" 2]
  show ?thesis
    by (simp add: s2)
qed

subsection \<open>The hex decoder\<close>

lemma hexchar_range: "- 1 \<le> hexchar_to_int c \<and> hexchar_to_int c < 16"
  by (simp add: hexchar_to_int_def)

lemma hex_digit_valid: "is_hex_digit c \<Longrightarrow> 0 \<le> hexchar_to_int c"
  by (auto simp: is_hex_digit_def hexchar_to_int_def)

lemma valid_hex_digit:
  assumes "0 \<le> hexchar_to_int c" shows "is_hex_digit c"
proof -
  define v :: int where "v = of_char c"
  have "(48 \<le> v \<and> v \<le> 57) \<or> (97 \<le> v \<and> v \<le> 102) \<or> (65 \<le> v \<and> v \<le> 70)"
    using assms unfolding v_def by (auto simp: hexchar_to_int_def split: if_splits)
  then have "v = 48 \<or> v = 49 \<or> v = 50 \<or> v = 51 \<or> v = 52 \<or> v = 53 \<or> v = 54 \<or> v = 55 \<or> v = 56
           \<or> v = 57 \<or> v = 97 \<or> v = 98 \<or> v = 99 \<or> v = 100 \<or> v = 101 \<or> v = 102
           \<or> v = 65 \<or> v = 66 \<or> v = 67 \<or> v = 68 \<or> v = 69 \<or> v = 70"
    by arith
  then have "v \<in> of_char ` set ''0123456789abcdefABCDEF''"
    by auto
  then obtain d where "d \<in> set ''0123456789abcdefABCDEF''" "(of_char c :: int) = of_char d"
    unfolding v_def by blast
  then show ?thesis unfolding is_hex_digit_def by simp
qed

lemma hexchar_valid: "0 \<le> hexchar_to_int c \<longleftrightarrow> is_hex_digit c"
  using valid_hex_digit hex_digit_valid by blast

lemma nibbles_or:
  assumes "0 \<le> lo" and "lo < 16"
  shows "push_bit 4 hi OR lo = 16 * hi + (lo :: int)"
proof -
  have lo: "take_bit 4 lo = lo"
    using assms by (simp add: take_bit_int_eq_self)
  have "push_bit 4 hi AND take_bit 4 lo = 0"
    by (simp add: bit_eq_iff bit_simps)
  then have "push_bit 4 hi OR take_bit 4 lo = push_bit 4 hi + take_bit 4 lo"
    by (simp add: disjunctive_add_eq_or)
  then show ?thesis by (simp add: lo push_bit_eq_mult)
qed

lemma parse_hex_loop_spec:
  assumes "2 * (i + n) \<le> length hex" and "i + n \<le> length out"
  shows "\<exists>k. i \<le> k \<and> k \<le> i + n \<and> (\<forall>j. i \<le> j \<and> j < k \<longrightarrow> pair_ok hex j)
           \<and> (k < i + n \<longrightarrow> \<not> pair_ok hex k)
           \<and> parse_hex_loop hex n i out =
               (if k = i + n then 0 else - 1, take i out @ map (hex_byte hex) [i..<k] @ drop k out)"
  using assms
proof (induction n arbitrary: i out)
  case 0
  then show ?case by (intro exI[of _ i]) auto
next
  case (Suc n)
  have at: "hex_at hex (2 * i) = hex ! (2 * i)" "hex_at hex (Suc (2 * i)) = hex ! (Suc (2 * i))"
    using Suc.prems by (simp_all add: hex_at_def)
  show ?case
  proof (cases "pair_ok hex i")
    case False
    then have "parse_hex_loop hex (Suc n) i out = (- 1, out)"
      by (auto simp: at pair_ok_def hexchar_valid [symmetric] Let_def)
    then show ?thesis using False by (intro exI[of _ i]) auto
  next
    case True
    define b where "b = hex_byte hex i"
    define out' where "out' = out[i := b]"
    have hi: "0 \<le> hexchar_to_int (hex ! (2 * i))" and lo: "0 \<le> hexchar_to_int (hex ! (2 * i + 1))"
      using True by (simp_all add: pair_ok_def hexchar_valid)
    have "push_bit 4 (hexchar_to_int (hex ! (2 * i))) OR hexchar_to_int (hex ! (2 * i + 1))
          = 16 * hexchar_to_int (hex ! (2 * i)) + hexchar_to_int (hex ! (2 * i + 1))"
      using lo hexchar_range [of "hex ! (2 * i + 1)"] by (intro nibbles_or) simp_all
    then have step: "parse_hex_loop hex (Suc n) i out = parse_hex_loop hex n (Suc i) out'"
      using hi lo by (simp add: at Let_def out'_def b_def hex_byte_def)
    have "2 * (Suc i + n) \<le> length hex" "Suc i + n \<le> length out'"
      using Suc.prems by (simp_all add: out'_def)
    from Suc.IH [OF this] obtain k where k: "Suc i \<le> k" "k \<le> Suc i + n"
        "\<forall>j. Suc i \<le> j \<and> j < k \<longrightarrow> pair_ok hex j" "k < Suc i + n \<longrightarrow> \<not> pair_ok hex k"
        "parse_hex_loop hex n (Suc i) out' =
           (if k = Suc i + n then 0 else - 1, take (Suc i) out' @ map (hex_byte hex) [Suc i..<k] @ drop k out')"
      by blast
    have i_lt: "i < length out" using Suc.prems by simp
    have t: "take (Suc i) out' = take i out @ [b]"
      using i_lt by (simp add: out'_def take_Suc_conv_app_nth)
    have d: "drop k out' = drop k out"
      using k(1) by (simp add: out'_def)
    have u: "[i..<k] = i # [Suc i..<k]"
      using k(1) by (simp add: upt_conv_Cons)
    have all: "\<forall>j. i \<le> j \<and> j < k \<longrightarrow> pair_ok hex j"
      using k(3) True by (metis Suc_leI le_neq_implies_less)
    have "parse_hex_loop hex (Suc n) i out =
            (if k = i + Suc n then 0 else - 1, take i out @ map (hex_byte hex) [i..<k] @ drop k out)"
      unfolding step k(5) by (simp add: t d u b_def)
    then show ?thesis
      using k(1,2,4) all by (intro exI[of _ k]) (simp del: parse_hex_loop.simps)
  qed
qed

lemma size_t_double:
  assumes "n < 2 ^ 63"
  shows "unat (of_nat n * 2 :: 64 word) = 2 * n"
proof -
  have "(of_nat n * 2 :: 64 word) = of_nat (2 * n)" by simp
  moreover have "unat (of_nat (2 * n) :: 64 word) = (2 * n) mod 2 ^ 64"
    by (simp only: unat_of_nat len_of_numeral_defs) simp
  moreover have "2 * n < 2 ^ 64" using assms by simp
  ultimately show ?thesis by (simp add: mult.commute)
qed

lemma all_pairs:
  assumes "length hex = 2 * n"
  shows "(\<forall>c\<in>set hex. P c) \<longleftrightarrow> (\<forall>j<n. P (hex ! (2 * j)) \<and> P (hex ! (2 * j + 1)))"
proof
  assume "\<forall>c\<in>set hex. P c"
  then show "\<forall>j<n. P (hex ! (2 * j)) \<and> P (hex ! (2 * j + 1))"
    using assms by simp
next
  assume r: "\<forall>j<n. P (hex ! (2 * j)) \<and> P (hex ! (2 * j + 1))"
  show "\<forall>c\<in>set hex. P c"
  proof
    fix c assume "c \<in> set hex"
    then obtain m where m: "m < length hex" "c = hex ! m" by (metis in_set_conv_nth)
    have "m div 2 < n" using m(1) assms by simp
    then have "P (hex ! (2 * (m div 2))) \<and> P (hex ! (2 * (m div 2) + 1))" using r by blast
    moreover have "m = 2 * (m div 2) \<or> m = 2 * (m div 2) + 1" by presburger
    ultimately show "P c" using m(2) by metis
  qed
qed

text \<open>
  Claim C9, as amended. For a string given with its length and a buffer given with its
  length (below \<open>2^63\<close>, so that \<open>out_len * 2\<close> does not wrap), \<open>parse_hex\<close> returns 0
  exactly when the string has twice as many characters as the buffer has bytes and every
  character is a hexadecimal digit, and \<open>-1\<close> in every other case. On a length violation
  the buffer is untouched. On an invalid digit in pair \<open>k\<close> the first \<open>k\<close> bytes of the buffer
  have been overwritten with the decoded pairs before it and the rest is untouched.
\<close>

theorem parse_hex_amended:
  assumes "length out < 2 ^ 63"
  shows "\<exists>k\<le>length out.
      parse_hex hex (length hex) out (length out) =
        (if length hex = 2 * length out \<and> (\<forall>c\<in>set hex. is_hex_digit c) then 0 else - 1,
         map (hex_byte hex) [0..<k] @ drop k out)
    \<and> (\<forall>j<k. pair_ok hex j)
    \<and> (length hex \<noteq> 2 * length out \<longrightarrow> k = 0)
    \<and> (length hex = 2 * length out \<and> (\<forall>c\<in>set hex. is_hex_digit c) \<longrightarrow> k = length out)
    \<and> (length hex = 2 * length out \<and> \<not> (\<forall>c\<in>set hex. is_hex_digit c)
          \<longrightarrow> k < length out \<and> \<not> pair_ok hex k)"
proof (cases "length hex = 2 * length out")
  case False
  then have "parse_hex hex (length hex) out (length out) = (- 1, out)"
    using assms by (simp add: parse_hex_def size_t_double)
  then show ?thesis using False by (intro exI[of _ 0]) simp
next
  case True
  have ph: "parse_hex hex (length hex) out (length out) = parse_hex_loop hex (length out) 0 out"
    using True assms by (simp add: parse_hex_def size_t_double)
  have "2 * (0 + length out) \<le> length hex" "0 + length out \<le> length out" using True by simp_all
  from parse_hex_loop_spec [OF this] obtain k where k: "k \<le> length out"
      "\<forall>j<k. pair_ok hex j" "k < length out \<longrightarrow> \<not> pair_ok hex k"
      "parse_hex_loop hex (length out) 0 out =
         (if k = length out then 0 else - 1, map (hex_byte hex) [0..<k] @ drop k out)"
    by auto
  have allv: "(\<forall>c\<in>set hex. is_hex_digit c) \<longleftrightarrow> (\<forall>j<length out. pair_ok hex j)"
    unfolding pair_ok_def using True by (rule all_pairs)
  have "k = length out \<longleftrightarrow> (\<forall>c\<in>set hex. is_hex_digit c)"
    using k(1,2,3) allv by (metis le_neq_implies_less)
  moreover have "parse_hex hex (length hex) out (length out) =
         (if k = length out then 0 else - 1, map (hex_byte hex) [0..<k] @ drop k out)"
    by (simp only: ph k(4))
  ultimately show ?thesis
    using True k(1,2,3) by (intro exI[of _ k]) auto
qed

text \<open>
  Witness for C9 as amended: a well-formed string of four digits decodes into both bytes.
\<close>

theorem parse_hex_amended_witness:
  "parse_hex ''0aFf'' (length ''0aFf'') [0, 0] (length [0 :: byte, 0]) = (0, [0x0A, 0xFF])"
proof -
  have "length [0 :: byte, 0] < 2 ^ 63" by simp
  from parse_hex_amended [OF this, of "''0aFf''"] obtain k where
    k: "parse_hex ''0aFf'' (length ''0aFf'') [0, 0] (length [0 :: byte, 0]) =
          (if length ''0aFf'' = 2 * length [0 :: byte, 0] \<and> (\<forall>c\<in>set ''0aFf''. is_hex_digit c)
           then 0 else - 1, map (hex_byte ''0aFf'') [0..<k] @ drop k [0, 0])"
       "length ''0aFf'' = 2 * length [0 :: byte, 0] \<and> (\<forall>c\<in>set ''0aFf''. is_hex_digit c)
          \<longrightarrow> k = length [0 :: byte, 0]"
    by blast
  have v: "\<forall>c\<in>set ''0aFf''. is_hex_digit c" by (simp add: is_hex_digit_def)
  then have "k = 2" using k(2) by simp
  moreover have "map (hex_byte ''0aFf'') [0..<2] = [0x0A, 0xFF]"
    by (simp add: hex_byte_def hexchar_to_int_def upt_rec numeral_2_eq_2 [symmetric])
  ultimately show ?thesis using k(1) v by simp
qed

text \<open>
  Counterexample to C9 as stated (on error the buffer is never left partially filled): the
  second pair is invalid, the call returns \<open>-1\<close>, and the first byte of the buffer has been
  overwritten with the decoded first pair.
\<close>

theorem parse_hex_partial_counterexample:
  "parse_hex ''00zz'' 4 [0xAA, 0xAA] 2 = (- 1, [0x00, 0xAA])"
  by code_simp

subsection \<open>The Mode B layer operation\<close>

lemma sint_in_range32: "- (2 ^ 31) \<le> k \<Longrightarrow> k < 2 ^ 31 \<Longrightarrow> sint (word_of_int k :: int32) = k"
  by (simp add: sint_sbintrunc' signed_take_bit_int_eq_self)

lemma sint8_bounds: "- 128 \<le> sint (w :: int8) \<and> sint w \<le> 127"
  using sint_ge [of w] sint_lt [of w] by simp

lemma scast8_32: "(scast (w :: int8) :: int32) = word_of_int (sint w)"
  by simp

lemma x_mapped_bit:
  assumes "b = 0 \<or> b = (1 :: int8)"
  shows "sint (word_of_int (2 * sint b - 1) :: int8) = 2 * sint b - 1"
  using assms by auto

lemma abs_mult_le: "\<bar>a\<bar> \<le> 128 \<Longrightarrow> \<bar>b :: int\<bar> = 1 \<Longrightarrow> \<bar>a * b\<bar> \<le> 128"
  by (simp add: abs_mult)

lemma dot_sum:
  fixes w x :: "nat \<Rightarrow> int8"
  assumes "\<forall>i<n. \<bar>sint (x i)\<bar> = 1" and "n < 2 ^ 24"
  shows "fold (\<lambda>i sum. sum + (scast (w i) :: int32) * scast (x i)) [0..<n] 0
           = word_of_int (\<Sum>i<n. sint (w i) * sint (x i))
         \<and> \<bar>\<Sum>i<n. sint (w i) * sint (x i)\<bar> \<le> 128 * int n"
  using assms
proof (induction n)
  case 0 then show ?case by simp
next
  case (Suc n)
  then have IH: "fold (\<lambda>i sum. sum + (scast (w i) :: int32) * scast (x i)) [0..<n] 0
           = word_of_int (\<Sum>i<n. sint (w i) * sint (x i))"
     "\<bar>\<Sum>i<n. sint (w i) * sint (x i)\<bar> \<le> 128 * int n"
    by simp_all
  have "\<bar>sint (w n)\<bar> \<le> 128" using sint8_bounds [of "w n"] by arith
  moreover have "\<bar>sint (x n)\<bar> = 1" using Suc.prems by simp
  ultimately have b: "\<bar>sint (w n) * sint (x n)\<bar> \<le> 128" by (rule abs_mult_le)
  have "fold (\<lambda>i sum. sum + (scast (w i) :: int32) * scast (x i)) [0..<Suc n] 0
        = fold (\<lambda>i sum. sum + (scast (w i) :: int32) * scast (x i)) [0..<n] 0
          + scast (w n) * scast (x n)"
    by simp
  also have "\<dots> = word_of_int (\<Sum>i<n. sint (w i) * sint (x i)) + scast (w n) * scast (x n)"
    by (subst IH(1)) (rule refl)
  also have "\<dots> = word_of_int (\<Sum>i<n. sint (w i) * sint (x i))
                   + word_of_int (sint (w n)) * word_of_int (sint (x n))"
    by (simp only: scast8_32)
  also have "\<dots> = word_of_int (\<Sum>i<Suc n. sint (w i) * sint (x i))"
    by (simp only: word_of_int_hom_syms sum.lessThan_Suc)
  finally show ?case using IH(2) b by (simp only: sum.lessThan_Suc) (simp; linarith)
qed

lemma fold_update_upt_exact:
  "length out = n \<Longrightarrow> fold (\<lambda>i out. out[i := f i]) [0..<n] out = map f [0..<n]"
  using fold_update_upt [of n out f] by simp

lemma layer_cell_tern:
  fixes matrix input x_mapped :: "int8 list"
  assumes bits: "\<forall>i<in_dim. input ! i = 0 \<or> input ! i = 1"
      and small: "in_dim < 2 ^ 24"
      and j: "in_dim = out_dim \<longrightarrow> j < in_dim"
      and xm: "x_mapped = map (\<lambda>i. word_of_int (2 * sint (input ! i) - 1)) [0..<in_dim]"
  shows "(let sum = fold (\<lambda>i sum. sum + (scast (matrix ! (j * in_dim + i)) :: int32)
                                          * scast (x_mapped ! i)) [0..<in_dim] 0;
              sum' = (if in_dim = out_dim then sum + scast (x_mapped ! j) else sum)
          in (if 0 < sint sum' then 1 else 0)) = layer_spec matrix in_dim out_dim input j"
proof -
  have x: "sint (x_mapped ! i) = 2 * sint (input ! i) - 1" if "i < in_dim" for i
  proof -
    have "input ! i = 0 \<or> input ! i = 1" using that bits by blast
    then show ?thesis using that by (auto simp add: xm)
  qed
  have x1: "\<forall>i<in_dim. \<bar>sint (x_mapped ! i)\<bar> = 1"
    using bits x by auto
  define D where "D = (\<Sum>i<in_dim. sint (matrix ! (j * in_dim + i)) * sint (x_mapped ! i))"
  from dot_sum [of in_dim "\<lambda>i. x_mapped ! i" "\<lambda>i. matrix ! (j * in_dim + i)", OF x1 small]
  have s: "fold (\<lambda>i sum. sum + (scast (matrix ! (j * in_dim + i)) :: int32) * scast (x_mapped ! i))
             [0..<in_dim] 0 = word_of_int D"
    and bD: "\<bar>D\<bar> \<le> 128 * int in_dim"
    unfolding D_def by simp_all
  have D': "D = (\<Sum>i<in_dim. sint (matrix ! (j * in_dim + i)) * (2 * sint (input ! i) - 1))"
    unfolding D_def by (rule sum.cong) (simp_all add: x)
  have lim: "128 * int in_dim + 1 < 2 ^ 31" using small by simp
  define R where "R = (if in_dim = out_dim then 2 * sint (input ! j) - 1 else 0)"
  have R1: "\<bar>R\<bar> \<le> 1"
  proof (cases "in_dim = out_dim")
    case True
    then have "\<bar>sint (x_mapped ! j)\<bar> = 1" using x1 j by simp
    then show ?thesis using True j by (simp add: R_def x)
  qed (simp add: R_def)
  have "(if in_dim = out_dim then word_of_int D + scast (x_mapped ! j) else word_of_int D :: int32)
          = word_of_int (D + R)"
  proof (cases "in_dim = out_dim")
    case True
    then have "sint (x_mapped ! j) = R" using j by (simp add: R_def x)
    then have "word_of_int D + (scast (x_mapped ! j) :: int32) = word_of_int (D + R)"
      by (simp only: scast8_32 word_of_int_hom_syms)
    then show ?thesis using True by simp
  qed (simp add: R_def)
  moreover have "sint (word_of_int (D + R) :: int32) = D + R"
    using bD lim R1 by (intro sint_in_range32) linarith+
  ultimately have "(let sum = fold (\<lambda>i sum. sum + (scast (matrix ! (j * in_dim + i)) :: int32)
                                          * scast (x_mapped ! i)) [0..<in_dim] 0;
              sum' = (if in_dim = out_dim then sum + scast (x_mapped ! j) else sum)
          in (if 0 < sint sum' then 1 else 0 :: int8)) = (if 0 < D + R then 1 else 0)"
    unfolding Let_def s by (simp only:)
  then show ?thesis
    unfolding layer_spec_def D' R_def .
qed

text \<open>
  Claim C6. In Mode B, when the scratch vector can be allocated, the input consists of
  bits and the input dimension is below \<open>2^24\<close> (so that the \<open>int32_t\<close> accumulator cannot
  overflow, whatever the \<open>int8_t\<close> weights are), \<open>layer_forward\<close> writes at every output
  index \<open>j\<close> the bit \<open>layer_spec\<close> describes: the input bits are mapped to \<open>2b - 1\<close>, the
  accumulator is the plain integer dot product with weight row \<open>j\<close>, the mapped input's
  element \<open>j\<close> is added exactly when the two dimensions are equal, and the output bit is 1
  exactly when the accumulator is greater than 0.
\<close>

theorem layer_forward_threshold:
  assumes "\<not> malloc_fails E (brk h)"
      and "\<forall>i<in_dim. input ! i = 0 \<or> input ! i = 1"
      and "in_dim < 2 ^ 24"
      and "out_dim \<le> length output"
  shows "\<exists>h'. layer_forward E matrix in_dim out_dim input output h =
           Return (map (layer_spec matrix in_dim out_dim input) [0..<out_dim] @ drop out_dim output, h')"
proof -
  define x_mapped where
    "x_mapped = map (\<lambda>i. word_of_int (2 * sint (input ! i) - 1) :: int8) [0..<in_dim]"
  have xm: "fold (\<lambda>i xm. xm[i := word_of_int (2 * sint (input ! i) - 1)]) [0..<in_dim]
              (fresh E (brk h) in_dim) = x_mapped"
    unfolding x_mapped_def by (rule fold_update_upt_exact) (simp add: fresh_def)
  define cell where "cell = (\<lambda>j. (let sum = fold (\<lambda>i sum. sum + (scast (matrix ! (j * in_dim + i)) :: int32)
                                          * scast (x_mapped ! i)) [0..<in_dim] 0;
              sum' = (if in_dim = out_dim then sum + scast (x_mapped ! j) else sum)
          in (if 0 < sint sum' then 1 else 0 :: int8)))"
  have cells: "cell j = layer_spec matrix in_dim out_dim input j" if "j < out_dim" for j
    unfolding cell_def using assms(2,3) _ x_mapped_def
    by (rule layer_cell_tern) (use that in simp)
  have "fold (\<lambda>j out. out[j := cell j]) [0..<out_dim] output
          = map cell [0..<out_dim] @ drop out_dim output"
    using assms(4) by (rule fold_update_upt)
  also have "map cell [0..<out_dim] = map (layer_spec matrix in_dim out_dim input) [0..<out_dim]"
    by (rule map_cong) (simp_all add: cells)
  finally have out: "fold (\<lambda>j out. out[j := cell j]) [0..<out_dim] output
          = map (layer_spec matrix in_dim out_dim input) [0..<out_dim] @ drop out_dim output" .
  obtain h1 where m: "malloc E h = (Some (brk h), h1)"
    using assms(1) by (simp add: malloc_def)
  have "layer_forward E matrix in_dim out_dim input output h =
          Return (fold (\<lambda>j out. out[j := cell j]) [0..<out_dim] output, free (brk h) h1)"
    unfolding layer_forward_def m by (simp only: option.case prod.case xm cell_def Let_def)
  then show ?thesis by (simp only: out) blast
qed

text \<open>
  Witness for C6: a 2 to 2 layer with residual (accumulators 3 and \<open>-2\<close>) and a 2 to 1 layer
  without (accumulator 0, a tie, which gives 0).
\<close>

theorem layer_forward_threshold_witness:
  "(\<exists>h'. layer_forward small_env [1, - 1, 0, 1] 2 2 [1, 0] [0, 0] heap_init = Return ([1, 0], h'))
 \<and> (\<exists>h'. layer_forward small_env [1, 1] 2 1 [1, 0] [1] heap_init = Return ([0], h'))"
proof -
  have s2: "(\<Sum>j<2. f j) = f 0 + f 1" for f :: "nat \<Rightarrow> int"
    by (simp add: numeral_2_eq_2)
  have u2: "[0..<2] = [0, 1]" and u1: "[0..<1] = [0]"
    by (simp_all add: upt_rec)
  have a: "\<not> malloc_fails small_env (brk heap_init)"
    by (simp add: small_env_def example_env_def)
  have b: "\<forall>i<2. [1, 0 :: int8] ! i = 0 \<or> [1, 0 :: int8] ! i = 1"
    by (simp add: less_2_cases_iff)
  have c: "(2 :: nat) < 2 ^ 24" by simp
  have d: "(2 :: nat) \<le> length [0 :: int8, 0]" and e: "(1 :: nat) \<le> length [1 :: int8]" by simp_all
  from layer_forward_threshold [OF a b c d, of "[1, - 1, 0, 1]"]
       layer_forward_threshold [OF a b c e, of "[1, 1]"]
  show ?thesis
    by (simp add: layer_spec_def s2 u2 u1)
qed

subsection \<open>Mode B: byte and bit order\<close>

lemma fold_modify_upt:
  "n \<le> length L \<Longrightarrow> fold (\<lambda>k L. L[k := G k (L ! k)]) [0..<n] L = map (\<lambda>k. G k (L ! k)) [0..<n] @ drop n L"
proof (induction n)
  case 0 then show ?case by simp
next
  case (Suc n)
  then have n: "n < length L" by simp
  have "fold (\<lambda>k L. L[k := G k (L ! k)]) [0..<Suc n] L
        = (map (\<lambda>k. G k (L ! k)) [0..<n] @ drop n L)[n := G n ((map (\<lambda>k. G k (L ! k)) [0..<n] @ drop n L) ! n)]"
    using Suc by simp
  also have "(map (\<lambda>k. G k (L ! k)) [0..<n] @ drop n L) ! n = L ! n"
    using n by (simp add: nth_append)
  also have "(map (\<lambda>k. G k (L ! k)) [0..<n] @ drop n L)[n := G n (L ! n)]
        = map (\<lambda>k. G k (L ! k)) [0..<n] @ (drop n L)[0 := G n (L ! n)]"
    by (simp add: list_update_append)
  also have "(drop n L)[0 := G n (L ! n)] = G n (L ! n) # drop (Suc n) L"
    using n by (metis Cons_nth_drop_Suc list_update_code(2))
  finally show ?case by simp
qed

lemma fold_update_shift:
  "length A = off \<Longrightarrow> fold (\<lambda>j st. st[off + j := f j]) [0..<m] (A @ B) = A @ fold (\<lambda>j st. st[j := f j]) [0..<m] B"
  by (induction m) (simp_all add: list_update_append)

lemma rev_by_index: "length xs = n \<Longrightarrow> map (\<lambda>i. xs ! (n - 1 - i)) [0..<n] = rev xs"
  by (rule nth_equalityI) (simp_all add: rev_nth)

lemma bit_test: "drop_bit (7 - j) (b :: byte) AND 1 = (if bit b (7 - j) then 1 else 0)"
  by (simp add: and_one_eq bit_iff_odd_drop_bit mod_2_eq_odd)

lemma or_fold_byte:
  "fold (\<lambda>m w. if b m then w OR push_bit (7 - m) 1 else w) [0..<8] (0 :: byte)
     = byte_of_bits (map b [0..<8])"
proof -
  have u: "[0..<8] = [0, 1, 2, 3, 4, 5, 6, 7 :: nat]" by (simp add: upt_rec)
  show ?thesis
    unfolding u byte_of_bits_def by (cases "b 0"; cases "b 1"; cases "b 2"; cases "b 3"; cases "b 4"; cases "b 5"; cases "b 6"; cases "b 7"; simp)
qed

lemma length_unpack_msb: "length (unpack_msb xs) = 8 * length xs"
  by (induction xs) (simp_all add: unpack_msb_def bits_of_byte_def)

lemma unpack_msb_snoc: "unpack_msb (xs @ [x]) = unpack_msb xs @ bits_of_byte x"
  by (simp add: unpack_msb_def)

lemma unpack_fold:
  assumes "8 * n \<le> length st" and "n \<le> length sw"
  shows "fold (\<lambda>i st. fold (\<lambda>j st. st[i * 8 + j := drop_bit (7 - j) (sw ! i) AND 1]) [0..<8] st)
           [0..<n] st = unpack_msb (take n sw) @ drop (8 * n) st"
  using assms
proof (induction n)
  case 0 then show ?case by (simp add: unpack_msb_def)
next
  case (Suc n)
  define A where "A = unpack_msb (take n sw)"
  define B where "B = drop (8 * n) st"
  have lA: "length A = n * 8" using Suc.prems by (simp add: A_def length_unpack_msb)
  have lB: "8 \<le> length B" using Suc.prems by (simp add: B_def)
  have "fold (\<lambda>i st. fold (\<lambda>j st. st[i * 8 + j := drop_bit (7 - j) (sw ! i) AND 1]) [0..<8] st)
           [0..<Suc n] st
        = fold (\<lambda>j st. st[n * 8 + j := drop_bit (7 - j) (sw ! n) AND 1]) [0..<8] (A @ B)"
    using Suc by (simp add: A_def B_def)
  also have "\<dots> = A @ fold (\<lambda>j st. st[j := drop_bit (7 - j) (sw ! n) AND 1]) [0..<8] B"
    using lA by (rule fold_update_shift)
  also have "fold (\<lambda>j st. st[j := drop_bit (7 - j) (sw ! n) AND 1]) [0..<8] B
             = map (\<lambda>j. drop_bit (7 - j) (sw ! n) AND 1) [0..<8] @ drop 8 B"
    using lB by (rule fold_update_upt)
  also have "map (\<lambda>j. drop_bit (7 - j) (sw ! n) AND 1) [0..<8] = bits_of_byte (sw ! n)"
    unfolding bits_of_byte_def bit_test ..
  also have "A @ bits_of_byte (sw ! n) @ drop 8 B = unpack_msb (take (Suc n) sw) @ drop (8 * Suc n) st"
    using Suc.prems by (simp add: A_def B_def take_Suc_conv_app_nth unpack_msb_snoc add.commute)
  finally show ?case .
qed

lemma fold_flat_nested:
  "fold F [0..<n * 8] = fold (\<lambda>k. fold (\<lambda>m. F (k * 8 + m)) [0..<8]) [0..<n]"
proof (induction n)
  case 0 then show ?case by simp
next
  case (Suc n)
  have "Suc n * 8 = n * 8 + 8" by simp
  then have a: "[0..<Suc n * 8] = [0..<n * 8] @ [n * 8..<n * 8 + 8]"
    using upt_add_eq_append [of 0 "n * 8" 8] by (simp only: le0)
  have b: "[n * 8..<n * 8 + 8] = map (\<lambda>m. n * 8 + m) [0..<8]"
    using map_add_upt [of "n * 8" 8] by (simp only: add.commute)
  have "fold F [0..<Suc n * 8] = fold F (map (\<lambda>m. n * 8 + m) [0..<8]) \<circ> fold F [0..<n * 8]"
    by (simp only: a b fold_append)
  also have "fold F (map (\<lambda>m. n * 8 + m) [0..<8]) = fold (\<lambda>m. F (n * 8 + m)) [0..<8]"
    by (simp only: fold_map comp_def)
  also have "fold F [0..<n * 8] = fold (\<lambda>k. fold (\<lambda>m. F (k * 8 + m)) [0..<8]) [0..<n]"
    by (rule Suc.IH)
  finally show ?case by simp
qed

lemma fold_cong_length:
  assumes "\<And>k L. k \<in> set ks \<Longrightarrow> length L = N \<Longrightarrow> f k L = g k L \<and> length (g k L) = N"
      and "length L = N"
  shows "fold f ks L = fold g ks L"
  using assms by (induction ks arbitrary: L) simp_all

lemma fold_at_index:
  "k < length L \<Longrightarrow>
   fold (\<lambda>m L. if c m then L[k := g m (L ! k)] else L) ms L
     = L[k := fold (\<lambda>m w. if c m then g m w else w) ms (L ! k)]"
  by (induction ms arbitrary: L) simp_all

lemma pack_byte:
  assumes "k < length L"
  shows "fold (\<lambda>m ob. if bits ! (k * 8 + m) \<noteq> (0 :: int8)
                        then ob[(k * 8 + m) div 8 := ob ! ((k * 8 + m) div 8)
                                  OR push_bit (7 - (k * 8 + m) mod 8) 1]
                        else ob) [0..<8] (L :: byte list)
         = L[k := fold (\<lambda>m w. if bits ! (k * 8 + m) \<noteq> 0 then w OR push_bit (7 - m) 1 else w)
                    [0..<8] (L ! k)]"
proof -
  have "fold (\<lambda>m ob. if bits ! (k * 8 + m) \<noteq> (0 :: int8)
                        then ob[(k * 8 + m) div 8 := ob ! ((k * 8 + m) div 8)
                                  OR push_bit (7 - (k * 8 + m) mod 8) 1]
                        else ob) [0..<8] L
        = fold (\<lambda>m ob. if bits ! (k * 8 + m) \<noteq> 0
                        then ob[k := ob ! k OR push_bit (7 - m) 1] else ob) [0..<8] L"
    by (rule fold_cong) auto
  also have "\<dots> = L[k := fold (\<lambda>m w. if bits ! (k * 8 + m) \<noteq> 0 then w OR push_bit (7 - m) 1 else w)
                    [0..<8] (L ! k)]"
    using assms by (rule fold_at_index)
  finally show ?thesis .
qed

lemma pack_bits_spec:
  assumes "IN_SIZE E \<le> length out"
  shows "pack_bits E bits out = pack_msb (IN_SIZE E) bits @ drop (IN_SIZE E) out"
proof -
  define n where "n = IN_SIZE E"
  define L0 where "L0 = replicate n (0 :: byte) @ drop n out"
  define G where "G = (\<lambda>k w. fold (\<lambda>m w. if bits ! (k * 8 + m) \<noteq> 0 then w OR push_bit (7 - m) 1 else w)
                    [0..<8] (w :: byte))"
  have len: "length L0 = length out" using assms by (simp add: L0_def n_def)
  have nL: "n \<le> length L0" using assms len by (simp add: n_def)
  have "pack_bits E bits out =
          fold (\<lambda>k. fold (\<lambda>m ob. if bits ! (k * 8 + m) \<noteq> 0
                        then ob[(k * 8 + m) div 8 := ob ! ((k * 8 + m) div 8)
                                  OR push_bit (7 - (k * 8 + m) mod 8) 1]
                        else ob) [0..<8]) [0..<n] L0"
    unfolding pack_bits_def INPUT_BITS_def n_def [symmetric] L0_def [symmetric]
    by (simp only: fold_flat_nested)
  also have "\<dots> = fold (\<lambda>k L. L[k := G k (L ! k)]) [0..<n] L0"
  proof (rule fold_cong_length [where N = "length L0"])
    fix k and L :: "byte list"
    assume "k \<in> set [0..<n]" and "length L = length L0"
    then have "k < length L" using nL by simp
    then show "fold (\<lambda>m ob. if bits ! (k * 8 + m) \<noteq> 0
                        then ob[(k * 8 + m) div 8 := ob ! ((k * 8 + m) div 8)
                                  OR push_bit (7 - (k * 8 + m) mod 8) 1]
                        else ob) [0..<8] L = L[k := G k (L ! k)]
               \<and> length (L[k := G k (L ! k)]) = length L0"
      using \<open>length L = length L0\<close> unfolding G_def by (simp only: pack_byte length_list_update simp_thms)
  qed (rule refl)
  also have "\<dots> = map (\<lambda>k. G k (L0 ! k)) [0..<n] @ drop n L0"
    using nL by (rule fold_modify_upt)
  also have "map (\<lambda>k. G k (L0 ! k)) [0..<n] = pack_msb n bits"
    unfolding pack_msb_def by (rule map_cong) (simp_all add: L0_def nth_append G_def or_fold_byte)
  also have "drop n L0 = drop n out" by (simp add: L0_def)
  finally show ?thesis unfolding n_def .
qed

lemma pack_msb_take: "pack_msb n (take (n * 8) bits) = pack_msb n bits"
proof -
  have "k * 8 + m < n * 8" if "k < n" "m < 8" for k m :: nat
  proof -
    have "Suc k * 8 \<le> n * 8" using that(1) by (intro mult_le_mono1) simp
    then show ?thesis using that(2) by simp
  qed
  then show ?thesis
    unfolding pack_msb_def by (intro map_cong refl arg_cong [where f = byte_of_bits]) simp
qed

lemma length_pack_msb: "length (pack_msb n bits) = n"
  by (simp add: pack_msb_def)

text \<open>
  Claim C7. In Mode B, for an input and an output buffer of \<open>IN_SIZE\<close> bytes and a state
  buffer of \<open>HIDDEN\<close> entries that has room for the input bits, \<open>tens_hash_precomputed\<close> runs
  the three stages on the bits of the byte-reversed input, unpacked most significant bit
  first (the rest of the state buffer cleared), and returns the result bits, packed most
  significant bit first, in reversed byte order.
\<close>

theorem tens_hash_precomputed_tern_byte_order:
  assumes "length input = IN_SIZE E" and "length output = IN_SIZE E"
      and "INPUT_BITS E \<le> HIDDEN E" and "length (ctx_state ctx) = HIDDEN E"
  shows "tens_hash_precomputed_tern E input (Some ctx) output h =
    (case forward_layers E
            (ctx\<lparr>ctx_state := unpack_msb (rev input) @ replicate (HIDDEN E - INPUT_BITS E) 0\<rparr>) h of
       Exit k \<Rightarrow> Exit k
     | Return (ctx', h') \<Rightarrow>
         Return (rev (pack_msb (IN_SIZE E) (ctx_next_state ctx')), Some ctx', h'))"
proof -
  define n where "n = IN_SIZE E"
  have sw: "map (\<lambda>i. input ! (n - 1 - i)) [0..<n] = rev input"
    using assms(1) unfolding n_def by (rule rev_by_index)
  have cl: "replicate (HIDDEN E) 0 @ drop (HIDDEN E) (ctx_state ctx) = replicate (HIDDEN E) (0 :: int8)"
    using assms(4) by simp
  have fit: "8 * n \<le> HIDDEN E" using assms(3) by (simp add: INPUT_BITS_def n_def)
  have "fold (\<lambda>i st. fold (\<lambda>j st. st[i * 8 + j := drop_bit (7 - j) (rev input ! i) AND 1]) [0..<8] st)
           [0..<n] (replicate (HIDDEN E) 0)
        = unpack_msb (take n (rev input)) @ drop (8 * n) (replicate (HIDDEN E) 0)"
    using fit assms(1) by (intro unpack_fold) (simp_all add: n_def)
  then have st: "fold (\<lambda>i st. fold (\<lambda>j st. st[i * 8 + j := drop_bit (7 - j) (rev input ! i) AND 1])
                               [0..<8] st)
           [0..<n] (replicate (HIDDEN E) 0)
        = unpack_msb (rev input) @ replicate (HIDDEN E - INPUT_BITS E) 0"
    using assms(1) by (simp add: n_def INPUT_BITS_def mult.commute)
  have out: "map (\<lambda>i. pack_bits E (take (INPUT_BITS E) ns) output ! (n - 1 - i)) [0..<n]
               @ drop n (pack_bits E (take (INPUT_BITS E) ns) output) = rev (pack_msb n ns)" for ns
  proof -
    have p: "pack_bits E (take (INPUT_BITS E) ns) output = pack_msb n ns"
      using assms(2) by (simp add: pack_bits_spec INPUT_BITS_def n_def pack_msb_take)
    have "map (\<lambda>i. pack_msb n ns ! (n - 1 - i)) [0..<n] = rev (pack_msb n ns)"
      by (rule rev_by_index) (rule length_pack_msb)
    then show ?thesis by (simp add: p length_pack_msb)
  qed
  have "tens_hash_precomputed_tern E input (Some ctx) output h =
    (case forward_layers E
            (ctx\<lparr>ctx_state := unpack_msb (rev input) @ replicate (HIDDEN E - INPUT_BITS E) 0\<rparr>) h of
       Exit k \<Rightarrow> Exit k
     | Return (ctx', h') \<Rightarrow>
         Return (map (\<lambda>i. pack_bits E (take (INPUT_BITS E) (ctx_next_state ctx')) output ! (n - 1 - i))
                   [0..<n]
                 @ drop n (pack_bits E (take (INPUT_BITS E) (ctx_next_state ctx')) output),
                 Some ctx', h'))"
    unfolding tens_hash_precomputed_tern_def Let_def n_def [symmetric]
    by (simp only: option.case sw cl st)
  then show ?thesis
    using out [unfolded n_def] by (simp add: n_def split: outcome.split)
qed

text \<open>
  Witness for C7: two input bytes; the result bits are \<open>0110 0001 0101 0000\<close>, which pack
  to \<open>0x61, 0x50\<close> and are returned as \<open>0x50, 0x61\<close>.
\<close>

theorem tens_hash_precomputed_tern_byte_order_witness:
  "(case tens_hash_precomputed_tern small_env [0xF1, 0x55] (Some small_ctx) [0, 0] heap_init of
      Exit k \<Rightarrow> False
    | Return (out, c, h) \<Rightarrow> out = [0x50, 0x61])"
proof -
  have a: "length [0xF1, 0x55 :: byte] = IN_SIZE small_env"
    and b: "length [0, 0 :: byte] = IN_SIZE small_env"
    and c: "INPUT_BITS small_env \<le> HIDDEN small_env"
    and d: "length (ctx_state small_ctx) = HIDDEN small_env"
    by (simp_all add: small_env_def example_env_def INPUT_BITS_def small_ctx_def)
  show ?thesis
    unfolding tens_hash_precomputed_tern_byte_order [OF a b c d]
    by code_simp
qed

subsection \<open>The heap under \<open>malloc\<close> and \<open>free\<close>\<close>

lemma grows_refl: "grows h h {}"
  by (simp add: grows_def)

lemma grows_trans:
  assumes "grows h h1 S1" and "grows h1 h2 S2"
  shows "grows h h2 (S1 \<union> S2)"
proof -
  obtain e1 where e1: "trace h1 = trace h @ e1" "\<forall>e\<in>set e1. fresh_event (brk h) e"
    using assms(1) by (auto simp: grows_def)
  obtain e2 where e2: "trace h2 = trace h1 @ e2" "\<forall>e\<in>set e2. fresh_event (brk h1) e"
    using assms(2) by (auto simp: grows_def)
  have le: "brk h \<le> brk h1" "brk h1 \<le> brk h2" using assms by (auto simp: grows_def)
  have "\<forall>e\<in>set e2. fresh_event (brk h) e"
    using e2(2) le(1) by (auto simp: fresh_event_def split: event.splits)
  then have "trace h2 = trace h @ (e1 @ e2) \<and> (\<forall>e\<in>set (e1 @ e2). fresh_event (brk h) e)"
    using e1 e2(1) by auto
  then have "\<exists>evs. trace h2 = trace h @ evs \<and> (\<forall>e\<in>set evs. fresh_event (brk h) e)" by blast
  moreover have "\<forall>a\<in>S1 \<union> S2. brk h \<le> a \<and> a < brk h2"
    using assms le by (fastforce simp: grows_def)
  moreover have "live h2 = live h \<union> (S1 \<union> S2)" using assms by (auto simp: grows_def)
  ultimately show ?thesis using le by (simp add: grows_def)
qed

lemma grows_wf: "wf_heap h \<Longrightarrow> grows h h' S \<Longrightarrow> wf_heap h'"
  by (fastforce simp: grows_def wf_heap_def)

lemma grows_malloc_Some:
  "malloc E h = (Some a, h') \<Longrightarrow> grows h h' {a} \<and> a = brk h \<and> brk h' = Suc (brk h) \<and> \<not> malloc_fails E (brk h)"
  by (auto simp: malloc_def grows_def fresh_event_def split: if_splits)

lemma grows_malloc_None:
  "malloc E h = (None, h') \<Longrightarrow> grows h h' {} \<and> brk h' = Suc (brk h) \<and> malloc_fails E (brk h)"
  by (auto simp: malloc_def grows_def fresh_event_def split: if_splits)

lemma malloc_ok: "\<not> malloc_fails E (brk h) \<Longrightarrow> \<exists>h'. malloc E h = (Some (brk h), h')"
  by (simp add: malloc_def)

lemma grows_free:
  assumes "grows h h1 S" and "brk h \<le> a" and "wf_heap h"
  shows "grows h (free a h1) (S - {a})"
proof -
  obtain e1 where e1: "trace h1 = trace h @ e1" "\<forall>e\<in>set e1. fresh_event (brk h) e"
    using assms(1) by (auto simp: grows_def)
  have "trace (free a h1) = trace h @ (e1 @ [Free a]) \<and> (\<forall>e\<in>set (e1 @ [Free a]). fresh_event (brk h) e)"
    using e1 assms(2) by (auto simp: free_def fresh_event_def)
  then have "\<exists>evs. trace (free a h1) = trace h @ evs \<and> (\<forall>e\<in>set evs. fresh_event (brk h) e)" by blast
  moreover have "a \<notin> live h" using assms(2,3) by (auto simp: wf_heap_def)
  then have "live (free a h1) = live h \<union> (S - {a})"
    using assms(1) by (auto simp: free_def grows_def)
  ultimately show ?thesis using assms(1) by (simp add: grows_def free_def)
qed

lemma grows_free_rows:
  assumes "grows h h1 S" and "\<forall>a\<in>set rows. brk h \<le> a" and "wf_heap h"
  shows "grows h (free_rows rows h1) (S - set rows)"
  using assms
proof (induction rows arbitrary: h1 S)
  case Nil then show ?case by (simp add: free_rows_def)
next
  case (Cons a rows)
  have "grows h (free a h1) (S - {a})" using Cons.prems by (intro grows_free) simp_all
  then have "grows h (free_rows rows (free a h1)) (S - {a} - set rows)"
    using Cons.prems by (intro Cons.IH) simp_all
  moreover have "S - {a} - set rows = S - set (a # rows)" by auto
  ultimately show ?case by (simp add: free_rows_def)
qed

lemma brk_free [simp]: "brk (free a h) = brk h"
  by (simp add: free_def)

lemma brk_free_rows [simp]: "brk (free_rows rows h) = brk h"
  by (induction rows arbitrary: h) (simp_all add: free_rows_def)

lemma no_fail_0 [simp]: "no_fail E b 0"
  by (simp add: no_fail_def)

lemma no_fail_Suc_shift: "\<not> malloc_fails E b \<Longrightarrow> no_fail E (Suc b) n \<Longrightarrow> no_fail E b (Suc n)"
  unfolding no_fail_def
proof (intro allI impI)
  fix k assume a: "\<not> malloc_fails E b" "\<forall>k<n. \<not> malloc_fails E (Suc b + k)" "k < Suc n"
  show "\<not> malloc_fails E (b + k)"
  proof (cases k)
    case 0 then show ?thesis using a(1) by simp
  next
    case (Suc j) then show ?thesis using a(2,3) by simp
  qed
qed

lemma no_fail_add: "no_fail E b n \<Longrightarrow> no_fail E (b + n) m \<Longrightarrow> no_fail E b (n + m)"
  unfolding no_fail_def
proof (intro allI impI)
  fix k assume a: "\<forall>k<n. \<not> malloc_fails E (b + k)" "\<forall>k<m. \<not> malloc_fails E (b + n + k)" "k < n + m"
  show "\<not> malloc_fails E (b + k)"
  proof (cases "k < n")
    case True then show ?thesis using a(1) by simp
  next
    case False
    then have "k - n < m" "b + n + (k - n) = b + k" using a(3) by simp_all
    then show ?thesis using a(2) by metis
  qed
qed

lemma no_fail_take: "no_fail E b n \<Longrightarrow> m \<le> n \<Longrightarrow> no_fail E b m"
  by (simp add: no_fail_def)

lemma no_fail_drop: "no_fail E b (n + m) \<Longrightarrow> no_fail E (b + n) m"
  by (simp add: no_fail_def add.assoc)

subsection \<open>Allocating the rows in \<open>precompute_matrices\<close>\<close>

lemma alloc_rows_spec:
  assumes "alloc_rows E n rows h = (r, h')"
  shows "case r of
           Inr rs \<Rightarrow> \<exists>new. rs = rows @ new \<and> length new = n \<and> grows h h' (set new)
                      \<and> brk h' = brk h + n \<and> no_fail E (brk h) n
         | Inl rs \<Rightarrow> \<exists>new k. rs = rows @ new \<and> k < n \<and> grows h h' (set new)
                      \<and> brk h' = brk h + k + 1 \<and> no_fail E (brk h) k \<and> malloc_fails E (brk h + k)"
  using assms
proof (induction n arbitrary: rows h)
  case 0
  then show ?case by (auto simp: grows_refl)
next
  case (Suc n)
  obtain p h1 where m: "malloc E h = (p, h1)" by (cases "malloc E h")
  show ?case
  proof (cases p)
    case None
    then have "r = Inl rows" "h' = h1" using Suc.prems m by simp_all
    moreover have "grows h h1 {} \<and> brk h1 = Suc (brk h) \<and> malloc_fails E (brk h)"
      using m None by (intro grows_malloc_None) simp
    ultimately show ?thesis
      by (auto intro!: exI [of _ "[]"] exI [of _ 0])
  next
    case (Some a)
    then have rec: "alloc_rows E n (rows @ [a]) h1 = (r, h')" using Suc.prems m by simp
    have ms: "malloc E h = (Some a, h1)" using m Some by simp
    have g1: "grows h h1 {a}" "brk h1 = Suc (brk h)" "\<not> malloc_fails E (brk h)"
      using grows_malloc_Some [OF ms] by blast+
    show ?thesis
    proof (cases r)
      case (Inr rs)
      from Suc.IH [OF rec] Inr obtain new where new: "rs = (rows @ [a]) @ new" "length new = n"
          "grows h1 h' (set new)" "brk h' = brk h1 + n" "no_fail E (brk h1) n"
        by auto
      have "grows h h' ({a} \<union> set new)" using g1(1) new(3) by (rule grows_trans)
      moreover have "no_fail E (brk h) (Suc n)"
        using g1(2,3) new(5) by (intro no_fail_Suc_shift) simp_all
      ultimately show ?thesis
        using Inr new(1,2,4) g1(2) by (auto intro!: exI [of _ "a # new"])
    next
      case (Inl rs)
      from Suc.IH [OF rec] Inl obtain new k where new: "rs = (rows @ [a]) @ new" "k < n"
          "grows h1 h' (set new)" "brk h' = brk h1 + k + 1" "no_fail E (brk h1) k"
          "malloc_fails E (brk h1 + k)"
        by auto
      have "grows h h' ({a} \<union> set new)" using g1(1) new(3) by (rule grows_trans)
      moreover have "no_fail E (brk h) (Suc k)"
        using g1(2,3) new(5) by (intro no_fail_Suc_shift) simp_all
      ultimately show ?thesis
        using Inl new(1,2,4,6) g1(2) by (auto intro!: exI [of _ "a # new"] exI [of _ "Suc k"])
    qed
  qed
qed

lemma rounds_blocks_simps [simp]:
  "rounds_blocks [] = {}"
  "rounds_blocks ((p, rows) # rs) = insert p (set rows) \<union> rounds_blocks rs"
  "rounds_blocks (xs @ ys) = rounds_blocks xs \<union> rounds_blocks ys"
  by (auto simp: rounds_blocks_def)

lemma failure_blocks_simps [simp]:
  "failure_blocks PtrFailed = {}"
  "failure_blocks (RowFailed p rows) = insert p (set rows)"
  by (simp_all add: failure_blocks_def)

lemma alloc_middle_spec:
  assumes "alloc_middle E n done h = (r, h')"
  shows "case r of
           Inr ds \<Rightarrow> \<exists>new. ds = done @ new \<and> length new = n
                      \<and> (\<forall>x\<in>set new. length (snd x) = HIDDEN E)
                      \<and> grows h h' (rounds_blocks new)
                      \<and> brk h' = brk h + n * Suc (HIDDEN E)
                      \<and> no_fail E (brk h) (n * Suc (HIDDEN E))
         | Inl (ds, f) \<Rightarrow> \<exists>new k. ds = done @ new \<and> k < n * Suc (HIDDEN E)
                      \<and> grows h h' (rounds_blocks new \<union> failure_blocks f)
                      \<and> brk h' = brk h + k + 1 \<and> no_fail E (brk h) k
                      \<and> malloc_fails E (brk h + k)"
  using assms
proof (induction n arbitrary: "done" h)
  case 0
  then show ?case by (auto simp: grows_refl)
next
  case (Suc n)
  define H where "H = HIDDEN E"
  obtain p h1 where m: "malloc E h = (p, h1)" by (cases "malloc E h")
  show ?case
  proof (cases p)
    case None
    then have "r = Inl (done, PtrFailed)" "h' = h1" using Suc.prems m by simp_all
    moreover have "grows h h1 {} \<and> brk h1 = Suc (brk h) \<and> malloc_fails E (brk h)"
      using m None by (intro grows_malloc_None) simp
    ultimately show ?thesis
      by (auto intro!: exI [of _ "[]"] exI [of _ 0])
  next
    case (Some a)
    have ms: "malloc E h = (Some a, h1)" using m Some by simp
    have g1: "grows h h1 {a}" "brk h1 = Suc (brk h)" "\<not> malloc_fails E (brk h)"
      using grows_malloc_Some [OF ms] by blast+
    obtain rr h2 where ar: "alloc_rows E (HIDDEN E) [] h1 = (rr, h2)"
      by (cases "alloc_rows E (HIDDEN E) [] h1")
    show ?thesis
    proof (cases rr)
      case (Inl rows)
      then have res: "r = Inl (done, RowFailed a rows)" "h' = h2"
        using Suc.prems ms ar by simp_all
      from alloc_rows_spec [OF ar] Inl obtain k where k: "k < HIDDEN E" "grows h1 h2 (set rows)"
          "brk h2 = brk h1 + k + 1" "no_fail E (brk h1) k" "malloc_fails E (brk h1 + k)"
        by auto
      have "grows h h2 ({a} \<union> set rows)" using g1(1) k(2) by (rule grows_trans)
      moreover have "no_fail E (brk h) (Suc k)"
        using g1(2,3) k(4) by (intro no_fail_Suc_shift) simp_all
      moreover have "Suc k < Suc n * Suc (HIDDEN E)" using k(1) by simp
      ultimately show ?thesis
        using res k(3,5) g1(2)
        by (auto intro!: exI [of _ "[]"] exI [of _ "Suc k"])
    next
      case (Inr rows)
      then have rec: "alloc_middle E n (done @ [(a, rows)]) h2 = (r, h')"
        using Suc.prems ms ar by simp
      from alloc_rows_spec [OF ar] Inr have rows: "length rows = HIDDEN E" "grows h1 h2 (set rows)"
          "brk h2 = brk h1 + HIDDEN E" "no_fail E (brk h1) (HIDDEN E)"
        by auto
      have g2: "grows h h2 ({a} \<union> set rows)" using g1(1) rows(2) by (rule grows_trans)
      have b2: "brk h2 = brk h + Suc (HIDDEN E)" using rows(3) g1(2) by simp
      have nf2: "no_fail E (brk h) (Suc (HIDDEN E))"
        using g1(2,3) rows(4) by (intro no_fail_Suc_shift) simp_all
      show ?thesis
      proof (cases r)
        case (Inr ds)
        from Suc.IH [OF rec] Inr obtain new where new: "ds = (done @ [(a, rows)]) @ new"
            "length new = n" "\<forall>x\<in>set new. length (snd x) = HIDDEN E"
            "grows h2 h' (rounds_blocks new)" "brk h' = brk h2 + n * Suc (HIDDEN E)"
            "no_fail E (brk h2) (n * Suc (HIDDEN E))"
          by auto
        have "grows h h' (({a} \<union> set rows) \<union> rounds_blocks new)"
          using g2 new(4) by (rule grows_trans)
        moreover have "no_fail E (brk h) (Suc (HIDDEN E) + n * Suc (HIDDEN E))"
          using nf2 new(6) b2 by (intro no_fail_add) simp_all
        moreover have "Suc (HIDDEN E) + n * Suc (HIDDEN E) = Suc n * Suc (HIDDEN E)" by simp
        ultimately have "grows h h' (({a} \<union> set rows) \<union> rounds_blocks new)"
            "no_fail E (brk h) (Suc n * Suc (HIDDEN E))"
          by (simp_all only:)
        moreover have "brk h' = brk h + Suc n * Suc (HIDDEN E)" using new(5) b2 by simp
        ultimately show ?thesis
          using Inr new(1,2,3) rows(1)
          by (auto intro!: exI [of _ "(a, rows) # new"] simp: Un_commute
                   simp del: mult_Suc mult_Suc_right)
      next
        case (Inl x)
        obtain ds f where x: "x = (ds, f)" by (cases x)
        from Suc.IH [OF rec] Inl x obtain new k where new: "ds = (done @ [(a, rows)]) @ new"
            "k < n * Suc (HIDDEN E)" "grows h2 h' (rounds_blocks new \<union> failure_blocks f)"
            "brk h' = brk h2 + k + 1" "no_fail E (brk h2) k" "malloc_fails E (brk h2 + k)"
          by auto
        have "grows h h' (({a} \<union> set rows) \<union> (rounds_blocks new \<union> failure_blocks f))"
          using g2 new(3) by (rule grows_trans)
        moreover have "no_fail E (brk h) (Suc (HIDDEN E) + k)"
          using nf2 new(5) b2 by (intro no_fail_add) simp_all
        moreover have "Suc (HIDDEN E) + k < Suc n * Suc (HIDDEN E)" using new(2) by simp
        moreover have "brk h' = brk h + (Suc (HIDDEN E) + k) + 1" using new(4) b2 by simp
        moreover have "malloc_fails E (brk h + (Suc (HIDDEN E) + k))" using new(6) b2 by (simp add: add.assoc)
        ultimately show ?thesis
          using Inl x new(1)
          by (auto intro!: exI [of _ "(a, rows) # new"] exI [of _ "Suc (HIDDEN E) + k"]
                   simp: Un_assoc simp del: mult_Suc mult_Suc_right add_Suc add_Suc_right)
      qed
    qed
  qed
qed

subsection \<open>\<open>generate_all_matrices\<close>\<close>

lemma take_drop_stream:
  assumes "p + len \<le> N"
  shows "take len (drop p (map ks [0..<N])) = map (\<lambda>j. ks (p + j)) [0..<len]"
proof (rule nth_equalityI)
  show "length (take len (drop p (map ks [0..<N]))) = length (map (\<lambda>j. ks (p + j)) [0..<len])"
    using assms by simp
next
  fix i assume "i < length (take len (drop p (map ks [0..<N])))"
  then have "i < len" by simp
  then show "take len (drop p (map ks [0..<N])) ! i = map (\<lambda>j. ks (p + j)) [0..<len] ! i"
    using assms by simp
qed

lemma fold_update_pos:
  "k \<le> length xs \<Longrightarrow>
   fold (\<lambda>i (xs, p). (xs[i := F i (xs ! i) p], p + d)) [0..<k] (xs, p0)
     = (map (\<lambda>i. F i (xs ! i) (p0 + i * d)) [0..<k] @ drop k xs, p0 + k * d)"
proof (induction k)
  case 0 then show ?case by simp
next
  case (Suc k)
  then have k: "k < length xs" by simp
  define A where "A = map (\<lambda>i. F i (xs ! i) (p0 + i * d)) [0..<k]"
  have lA: "length A = k" by (simp add: A_def)
  have "fold (\<lambda>i (xs, p). (xs[i := F i (xs ! i) p], p + d)) [0..<Suc k] (xs, p0)
        = ((A @ drop k xs)[k := F k ((A @ drop k xs) ! k) (p0 + k * d)], p0 + k * d + d)"
    using Suc by (simp add: A_def)
  also have "(A @ drop k xs) ! k = xs ! k"
    using k lA by (simp add: nth_append)
  also have "(A @ drop k xs)[k := F k (xs ! k) (p0 + k * d)]
             = A @ (drop k xs)[0 := F k (xs ! k) (p0 + k * d)]"
    using lA by (simp add: list_update_append)
  also have "(drop k xs)[0 := F k (xs ! k) (p0 + k * d)] = F k (xs ! k) (p0 + k * d) # drop (Suc k) xs"
    using k by (metis Cons_nth_drop_Suc list_update_code(2))
  finally show ?case by (simp add: A_def)
qed

lemma copy_rows_spec:
  assumes "length rows = n" and "\<forall>r\<in>set rows. length r \<le> len" and "pos + n * len \<le> N"
  shows "copy_rows (map ks [0..<N]) n len (rows, pos) = (slice_rows ks pos n len, pos + n * len)"
proof -
  have "copy_rows (map ks [0..<N]) n len (rows, pos)
        = (map (\<lambda>i. take len (drop (pos + i * len) (map ks [0..<N])) @ drop len (rows ! i)) [0..<n]
             @ drop n rows, pos + n * len)"
    unfolding copy_rows_def using assms(1) by (intro fold_update_pos) simp
  also have "map (\<lambda>i. take len (drop (pos + i * len) (map ks [0..<N])) @ drop len (rows ! i)) [0..<n]
             = slice_rows ks pos n len"
    unfolding slice_rows_def
  proof (rule map_cong [OF refl])
    fix i assume "i \<in> set [0..<n]"
    then have i: "i < n" by simp
    then have "Suc i * len \<le> n * len" by (intro mult_le_mono1) simp
    then have "pos + i * len + len \<le> N" using assms(3) by simp
    then have "take len (drop (pos + i * len) (map ks [0..<N])) = map (\<lambda>j. ks (pos + i * len + j)) [0..<len]"
      by (rule take_drop_stream)
    moreover have "drop len (rows ! i) = []" using assms(1,2) i by simp
    ultimately show "take len (drop (pos + i * len) (map ks [0..<N])) @ drop len (rows ! i)
                     = map (\<lambda>j. ks (pos + i * len + j)) [0..<len]" by simp
  qed
  finally show ?thesis using assms(1) by simp
qed

lemma copy_middle_spec:
  assumes "k \<le> length mats"
      and "\<forall>m\<in>set mats. length (cells m) = H \<and> (\<forall>r\<in>set (cells m). length r \<le> H)"
      and "pos + length mats * (H * H) \<le> N"
  shows "fold (\<lambda>r (mats, curr_pos).
             (let (rows, pos) = copy_rows (map ks [0..<N]) H H (cells (mats ! r), curr_pos)
              in (mats[r := (mats ! r)\<lparr>cells := rows\<rparr>], pos))) [0..<k] (mats, pos)
         = (map (\<lambda>r. (mats ! r)\<lparr>cells := slice_rows ks (pos + r * (H * H)) H H\<rparr>) [0..<k] @ drop k mats,
            pos + k * (H * H))"
  using assms(1)
proof (induction k)
  case 0 then show ?case by simp
next
  case (Suc k)
  then have k: "k < length mats" by simp
  define A where "A = map (\<lambda>r. (mats ! r)\<lparr>cells := slice_rows ks (pos + r * (H * H)) H H\<rparr>) [0..<k]"
  have lA: "length A = k" by (simp add: A_def)
  have nk: "(A @ drop k mats) ! k = mats ! k" using k lA by (simp add: nth_append)
  have "Suc k * (H * H) \<le> length mats * (H * H)" using k by (intro mult_le_mono1) simp
  then have bound: "pos + k * (H * H) + H * H \<le> N" using assms(3) by simp
  have "mats ! k \<in> set mats" using k by simp
  then have shape: "length (cells (mats ! k)) = H" "\<forall>r\<in>set (cells (mats ! k)). length r \<le> H"
    using assms(2) by blast+
  have cr: "copy_rows (map ks [0..<N]) H H (cells (mats ! k), pos + k * (H * H))
            = (slice_rows ks (pos + k * (H * H)) H H, pos + k * (H * H) + H * H)"
    using shape bound by (rule copy_rows_spec)
  have "fold (\<lambda>r (mats, curr_pos).
             (let (rows, pos) = copy_rows (map ks [0..<N]) H H (cells (mats ! r), curr_pos)
              in (mats[r := (mats ! r)\<lparr>cells := rows\<rparr>], pos))) [0..<Suc k] (mats, pos)
        = ((A @ drop k mats)[k := (mats ! k)\<lparr>cells := slice_rows ks (pos + k * (H * H)) H H\<rparr>],
           pos + k * (H * H) + H * H)"
    using Suc by (simp add: A_def [symmetric] nk cr)
  also have "(A @ drop k mats)[k := (mats ! k)\<lparr>cells := slice_rows ks (pos + k * (H * H)) H H\<rparr>]
             = A @ (drop k mats)[0 := (mats ! k)\<lparr>cells := slice_rows ks (pos + k * (H * H)) H H\<rparr>]"
    using lA by (simp add: list_update_append)
  also have "(drop k mats)[0 := (mats ! k)\<lparr>cells := slice_rows ks (pos + k * (H * H)) H H\<rparr>]
             = (mats ! k)\<lparr>cells := slice_rows ks (pos + k * (H * H)) H H\<rparr> # drop (Suc k) mats"
    using k by (metis Cons_nth_drop_Suc list_update_code(2))
  finally show ?case by (simp add: A_def)
qed

lemma grows_free':
  assumes "grows h h1 S" and "brk h \<le> a" and "wf_heap h" and "T = S - {a}"
  shows "grows h (free a h1) T"
  using grows_free [OF assms(1,2,3)] assms(4) by simp

lemma grows_free_rows':
  assumes "grows h h1 S" and "\<forall>a\<in>set rows. brk h \<le> a" and "wf_heap h" and "T = S - set rows"
  shows "grows h (free_rows rows h1) T"
  using grows_free_rows [OF assms(1,2,3)] assms(4) by simp

lemma grows_free_rounds:
  assumes "grows h h1 S" and "\<forall>a\<in>rounds_blocks rounds. brk h \<le> a" and "wf_heap h"
  shows "grows h (free_rounds rounds h1) (S - rounds_blocks rounds)"
  using assms(1,2)
proof (induction rounds arbitrary: h1 S)
  case Nil then show ?case by (simp add: free_rounds_def)
next
  case (Cons x rounds)
  obtain p rows where x: "x = (p, rows)" by (cases x)
  have "grows h (free_rows rows h1) (S - set rows)"
    using Cons.prems x assms(3) by (intro grows_free_rows) simp_all
  then have "grows h (free p (free_rows rows h1)) (S - set rows - {p})"
    using Cons.prems x assms(3) by (intro grows_free) simp_all
  then have "grows h (free_rounds rounds (free p (free_rows rows h1))) (S - set rows - {p} - rounds_blocks rounds)"
    using Cons.prems x by (intro Cons.IH) simp_all
  moreover have "S - set rows - {p} - rounds_blocks rounds = S - rounds_blocks (x # rounds)"
    using x by auto
  ultimately show ?case using x by (simp add: free_rounds_def)
qed

lemma grows_free_rounds':
  assumes "grows h h1 S" and "\<forall>a\<in>rounds_blocks rounds. brk h \<le> a" and "wf_heap h"
      and "T = S - rounds_blocks rounds"
  shows "grows h (free_rounds rounds h1) T"
  using grows_free_rounds [OF assms(1,2,3)] assms(4) by simp

lemma brk_free_rounds [simp]: "brk (free_rounds rounds h) = brk h"
  by (induction rounds arbitrary: h) (simp_all add: free_rounds_def split: prod.splits)

lemma grows_lower: "grows h h' S \<Longrightarrow> \<forall>a\<in>S. brk h \<le> a"
  by (simp add: grows_def)

lemma matrix_blocks_cells [simp]: "matrix_blocks (m\<lparr>cells := c\<rparr>) = matrix_blocks m"
  by (simp add: matrix_blocks_def)

lemma map_blocks_update:
  "map matrix_blocks (map (\<lambda>r. (mats ! r)\<lparr>cells := f r\<rparr>) [0..<length mats]) = map matrix_blocks mats"
  "map blocks (map (\<lambda>r. (mats ! r)\<lparr>cells := f r\<rparr>) [0..<length mats]) = map blocks mats"
  by (rule nth_equalityI; simp)+

lemma generate_all_matrices_spec:
  assumes wf: "wf_heap h"
      and se: "length (cells (expand_mat ms)) = HIDDEN E"
              "\<forall>r\<in>set (cells (expand_mat ms)). length r \<le> IN_SIZE E"
      and sm: "length (middle_mats ms) = ROUNDS E"
              "\<forall>m\<in>set (middle_mats ms). length (cells m) = HIDDEN E \<and> (\<forall>r\<in>set (cells m). length r \<le> HIDDEN E)"
      and sc: "length (cells (compress_mat ms)) = IN_SIZE E"
              "\<forall>r\<in>set (cells (compress_mat ms)). length r \<le> HIDDEN E"
      and gen: "generate_all_matrices E ms seed h = (ms', h')"
  shows "grows h h' {} \<and> brk h' = Suc (brk h) \<and> matrices_blocks ms' = matrices_blocks ms
         \<and> row_layout E ms' = row_layout E ms
         \<and> (if malloc_fails E (brk h) then ms' = ms
             else filled_from (ChaCha20_Keystream E (take 32 seed)) E ms')"
proof -
  obtain p h1 where m: "malloc E h = (p, h1)" by (cases "malloc E h")
  show ?thesis
  proof (cases p)
    case None
    then have "ms' = ms" "h' = h1" using gen m by (simp_all add: generate_all_matrices_def)
    moreover have "grows h h1 {} \<and> brk h1 = Suc (brk h) \<and> malloc_fails E (brk h)"
      using m None by (intro grows_malloc_None) simp
    ultimately show ?thesis by simp
  next
    case (Some a)
    have mal: "malloc E h = (Some a, h1)" using m Some by simp
    have g1: "grows h h1 {a}" "a = brk h" "brk h1 = Suc (brk h)" "\<not> malloc_fails E (brk h)"
      using grows_malloc_Some [OF mal] by blast+
    define ks where "ks = ChaCha20_Keystream E (take 32 seed)"
    define H where "H = HIDDEN E"
    define I where "I = IN_SIZE E"
    define R where "R = ROUNDS E"
    define N where "N = total_size E"
    have N: "N = H * I + R * (H * H) + I * H"
      by (simp add: N_def total_size_def H_def I_def R_def mult.assoc)
    have c1: "copy_rows (map ks [0..<N]) H I (cells (expand_mat ms), 0) = (slice_rows ks 0 H I, 0 + H * I)"
      using se N by (intro copy_rows_spec) (simp_all add: H_def I_def)
    have c2: "copy_middle (map ks [0..<N]) R H (middle_mats ms, H * I)
              = (map (\<lambda>r. (middle_mats ms ! r)\<lparr>cells := slice_rows ks (H * I + r * (H * H)) H H\<rparr>) [0..<R],
                 H * I + R * (H * H))"
      unfolding copy_middle_def
      using copy_middle_spec [of R "middle_mats ms" H "H * I" N ks] sm N
      by (simp add: H_def R_def)
    have c3: "copy_rows (map ks [0..<N]) I H (cells (compress_mat ms), H * I + R * (H * H))
              = (slice_rows ks (H * I + R * (H * H)) I H, H * I + R * (H * H) + I * H)"
      using sc N by (intro copy_rows_spec) (simp_all add: H_def I_def)
    define mids where
      "mids = map (\<lambda>r. (middle_mats ms ! r)\<lparr>cells := slice_rows ks (H * I + r * (H * H)) H H\<rparr>) [0..<R]"
    have res: "ms' = ms\<lparr>expand_mat := (expand_mat ms)\<lparr>cells := slice_rows ks 0 H I\<rparr>,
                         middle_mats := mids,
                         compress_mat := (compress_mat ms)\<lparr>cells := slice_rows ks (H * I + R * (H * H)) I H\<rparr>\<rparr>"
      and h': "h' = free a h1"
      using gen mal c1 c2 c3
      by (simp_all add: generate_all_matrices_def ks_def [symmetric] H_def [symmetric] I_def [symmetric]
            R_def [symmetric] N_def [symmetric] mids_def)
    have RR: "R = length (middle_mats ms)" using sm(1) by (simp add: R_def)
    have mb: "map matrix_blocks mids = map matrix_blocks (middle_mats ms)"
      and bl: "map blocks mids = map blocks (middle_mats ms)"
      unfolding mids_def RR by (rule map_blocks_update)+
    have "(\<Union>m\<in>set mids. matrix_blocks m) = \<Union> (set (map matrix_blocks mids))" by simp
    also have "\<dots> = (\<Union>m\<in>set (middle_mats ms). matrix_blocks m)" unfolding mb by simp
    finally have blocks_eq: "matrices_blocks ms' = matrices_blocks ms"
      by (simp add: res matrices_blocks_def)
    have "(\<forall>m\<in>set mids. length (blocks m) = H) \<longleftrightarrow> (\<forall>b\<in>set (map blocks mids). length b = H)" by simp
    also have "\<dots> \<longleftrightarrow> (\<forall>m\<in>set (middle_mats ms). length (blocks m) = H)" unfolding bl by simp
    moreover have "length mids = length (middle_mats ms)" by (simp add: mids_def RR)
    ultimately have layout: "row_layout E ms' = row_layout E ms"
      by (simp add: res row_layout_def H_def)
    have filled: "filled_from ks E ms'"
      by (simp add: filled_from_def res mids_def H_def I_def R_def comp_def)
    have "grows h (free a h1) {}"
      by (rule grows_free' g1(1))+ (use g1(2) wf in auto)
    then show ?thesis
      using g1(3,4) blocks_eq layout filled by (simp add: h' ks_def)
  qed
qed

subsection \<open>\<open>precompute_matrices\<close>\<close>

lemma new_matrix_simps [simp]:
  "ptrs (new_matrix E p rows cols) = p"
  "blocks (new_matrix E p rows cols) = rows"
  "cells (new_matrix E p rows cols) = map (\<lambda>a. fresh E a cols) rows"
  "matrix_blocks (new_matrix E p rows cols) = insert p (set rows)"
  by (simp_all add: new_matrix_def matrix_blocks_def)

lemma length_fresh [simp]: "length (fresh E a n) = n"
  by (simp add: fresh_def)

lemma middle_blocks_new:
  "(\<Union>m\<in>set (map (\<lambda>(p, rows). new_matrix E p rows cols) mids). matrix_blocks m) = rounds_blocks mids"
  by (auto simp: rounds_blocks_def)

lemma no_fail_1: "\<not> malloc_fails E b \<Longrightarrow> no_fail E b 1"
  by (simp add: no_fail_def)

lemma no_fail_snoc: "no_fail E b n \<Longrightarrow> \<not> malloc_fails E (b + n) \<Longrightarrow> no_fail E b (Suc n)"
  by (auto simp: no_fail_def less_Suc_eq)

lemma precompute_matrices_spec:
  assumes wf: "wf_heap h" and pm: "precompute_matrices E seed h = (r, h')"
  shows "case r of
           None \<Rightarrow> (\<exists>k. k < struct_requests E \<and> malloc_fails E (brk h + k) \<and> no_fail E (brk h) k
                       \<and> brk h' = brk h + k + 1) \<and> grows h h' {}
         | Some ms \<Rightarrow> no_fail E (brk h) (struct_requests E)
                       \<and> brk h' = brk h + struct_requests E + 1
                       \<and> grows h h' (matrices_blocks ms) \<and> row_layout E ms
                       \<and> (if malloc_fails E (brk h + struct_requests E) then unfilled E ms
                           else filled_from (ChaCha20_Keystream E (take 32 seed)) E ms)"
proof -
  define H where "H = HIDDEN E"
  define I where "I = IN_SIZE E"
  define R where "R = ROUNDS E"
  define K where "K = struct_requests E"
  have K: "K = 2 + H + R * Suc H + 1 + I"
    by (simp add: K_def struct_requests_def H_def I_def R_def)
  have fail: "case r of None \<Rightarrow> (\<exists>k. k < struct_requests E \<and> malloc_fails E (brk h + k) \<and> no_fail E (brk h) k
                       \<and> brk h' = brk h + k + 1) \<and> grows h h' {} | Some ms \<Rightarrow> False"
    if "r = None" "k < K" "malloc_fails E (brk h + k)" "no_fail E (brk h) k" "brk h' = brk h + k + 1"
       "grows h h' {}" for k
    using that unfolding K_def by auto
  \<comment> \<open>the structure itself\<close>
  obtain p0 h1 where m0: "malloc E h = (p0, h1)" by (cases "malloc E h")
  show ?thesis
  proof (cases p0)
    case None
    have "grows h h1 {} \<and> brk h1 = Suc (brk h) \<and> malloc_fails E (brk h)"
      using m0 None by (intro grows_malloc_None) simp
    moreover have "r = None" "h' = h1" using pm m0 None by (simp_all add: precompute_matrices_def)
    ultimately have "case r of None \<Rightarrow> (\<exists>k. k < struct_requests E \<and> malloc_fails E (brk h + k) \<and> no_fail E (brk h) k
                       \<and> brk h' = brk h + k + 1) \<and> grows h h' {} | Some ms \<Rightarrow> False"
      using K by (intro fail [of 0]) simp_all
    then show ?thesis by (auto split: option.splits)
  next
    case (Some ms)
    have mal0: "malloc E h = (Some ms, h1)" using m0 Some by simp
    have g1: "grows h h1 {ms}" "brk h1 = brk h + 1" "no_fail E (brk h) 1"
      using grows_malloc_Some [OF mal0] by (auto simp: no_fail_def)
    \<comment> \<open>the row pointers of the expansion matrix\<close>
    obtain p1 h2 where m1: "malloc E h1 = (p1, h2)" by (cases "malloc E h1")
    show ?thesis
    proof (cases p1)
      case None
      have "malloc E h1 = (None, h2)" using m1 None by simp
      from grows_malloc_None [OF this]
      have f: "grows h1 h2 {}" "brk h2 = Suc (brk h1)" "malloc_fails E (brk h1)" by blast+
      have res: "r = None" "h' = free ms h2"
        using pm mal0 m1 None by (simp_all add: precompute_matrices_def)
      have g: "grows h h2 ({ms} \<union> {})" using g1(1) f(1) by (rule grows_trans)
      note F = grows_lower [OF g]
      have "grows h h' {}"
        unfolding res by (rule grows_free' grows_free_rows' grows_free_rounds' g)+ (use F wf in auto)
      then have "case r of None \<Rightarrow> (\<exists>k. k < struct_requests E \<and> malloc_fails E (brk h + k) \<and> no_fail E (brk h) k
                       \<and> brk h' = brk h + k + 1) \<and> grows h h' {} | Some ms \<Rightarrow> False"
        using K f g1 res by (intro fail [of 1]) simp_all
      then show ?thesis by (auto split: option.splits)
    next
      case (Some ep)
      have mal1: "malloc E h1 = (Some ep, h2)" using m1 Some by simp
      have e2: "grows h1 h2 {ep}" "brk h2 = Suc (brk h1)" "\<not> malloc_fails E (brk h1)"
        using grows_malloc_Some [OF mal1] by blast+
      have g2: "grows h h2 ({ms} \<union> {ep})" using g1(1) e2(1) by (rule grows_trans)
      have b2: "brk h2 = brk h + 2" using e2(2) g1(2) by simp
      have n2: "no_fail E (brk h) 2"
        using g1(2,3) e2(3) by (auto simp: no_fail_def less_Suc_eq numeral_2_eq_2)
      \<comment> \<open>the rows of the expansion matrix\<close>
      obtain re h3 where ar: "alloc_rows E (HIDDEN E) [] h2 = (re, h3)"
        by (cases "alloc_rows E (HIDDEN E) [] h2")
      show ?thesis
      proof (cases re)
        case (Inl rows)
        from alloc_rows_spec [OF ar] Inl obtain k where k: "k < H" "grows h2 h3 (set rows)"
            "brk h3 = brk h2 + k + 1" "no_fail E (brk h2) k" "malloc_fails E (brk h2 + k)"
          by (auto simp: H_def)
        have res: "r = None" "h' = free ms (free ep (free_rows rows h3))"
          using pm mal0 mal1 ar Inl by (simp_all add: precompute_matrices_def)
        have g: "grows h h3 (({ms} \<union> {ep}) \<union> set rows)" using g2 k(2) by (rule grows_trans)
        note F = grows_lower [OF g]
        have "grows h h' {}"
          unfolding res by (rule grows_free' grows_free_rows' grows_free_rounds' g)+ (use F wf in auto)
        moreover have "no_fail E (brk h) (2 + k)"
          using n2 k(4) [unfolded b2] by (rule no_fail_add)
        ultimately have "case r of None \<Rightarrow> (\<exists>k. k < struct_requests E \<and> malloc_fails E (brk h + k) \<and> no_fail E (brk h) k
                       \<and> brk h' = brk h + k + 1) \<and> grows h h' {} | Some ms \<Rightarrow> False"
          using K k b2 res by (intro fail [of "2 + k"]) (simp_all add: add.assoc)
        then show ?thesis by (auto split: option.splits)
      next
        case (Inr erows)
        from alloc_rows_spec [OF ar] Inr have er: "length erows = H" "grows h2 h3 (set erows)"
            "brk h3 = brk h2 + H" "no_fail E (brk h2) H"
          by (auto simp: H_def)
        have g3: "grows h h3 (({ms} \<union> {ep}) \<union> set erows)" using g2 er(2) by (rule grows_trans)
        have b3: "brk h3 = brk h + (2 + H)" using er(3) b2 by simp
        have n3: "no_fail E (brk h) (2 + H)" using n2 er(4) [unfolded b2] by (rule no_fail_add)
        \<comment> \<open>the middle matrices\<close>
        obtain rm h4 where am: "alloc_middle E (ROUNDS E) [] h3 = (rm, h4)"
          by (cases "alloc_middle E (ROUNDS E) [] h3")
        show ?thesis
        proof (cases rm)
          case (Inl x)
          obtain dn f where x: "x = (dn, f)" by (cases x)
          from alloc_middle_spec [OF am] Inl x obtain k where k: "k < R * Suc H"
              "grows h3 h4 (rounds_blocks dn \<union> failure_blocks f)"
              "brk h4 = brk h3 + k + 1" "no_fail E (brk h3) k" "malloc_fails E (brk h3 + k)"
            by (auto simp: H_def R_def)
          have g: "grows h h4 ((({ms} \<union> {ep}) \<union> set erows) \<union> (rounds_blocks dn \<union> failure_blocks f))"
            using g3 k(2) by (rule grows_trans)
          note F = grows_lower [OF g]
          have "r = None \<and> grows h h' {} \<and> brk h' = brk h4"
          proof (cases f)
            case PtrFailed
            then have res: "r = None" "h' = free ms (free_rounds dn (free ep (free_rows erows h4)))"
              using pm mal0 mal1 ar Inr am Inl x by (simp_all add: precompute_matrices_def)
            have "grows h h' {}"
              unfolding res by (rule grows_free' grows_free_rows' grows_free_rounds' g)+
                (use F wf PtrFailed in auto)
            then show ?thesis using res by simp
          next
            case (RowFailed p rows)
            then have res: "r = None"
                "h' = free ms (free ep (free_rows erows (free_rounds dn (free p (free_rows rows h4)))))"
              using pm mal0 mal1 ar Inr am Inl x by (simp_all add: precompute_matrices_def)
            have "grows h h' {}"
              unfolding res by (rule grows_free' grows_free_rows' grows_free_rounds' g)+
                (use F wf RowFailed in auto)
            then show ?thesis using res by simp
          qed
          moreover have "no_fail E (brk h) (2 + H + k)"
            using n3 k(4) [unfolded b3] by (rule no_fail_add)
          ultimately have "case r of None \<Rightarrow> (\<exists>k. k < struct_requests E \<and> malloc_fails E (brk h + k) \<and> no_fail E (brk h) k
                       \<and> brk h' = brk h + k + 1) \<and> grows h h' {} | Some ms \<Rightarrow> False"
            using K k b3 by (intro fail [of "2 + H + k"]) (simp_all add: add.assoc)
          then show ?thesis by (auto split: option.splits)
        next
          case (Inr mids)
          from alloc_middle_spec [OF am] Inr have mi: "length mids = R"
              "\<forall>x\<in>set mids. length (snd x) = H" "grows h3 h4 (rounds_blocks mids)"
              "brk h4 = brk h3 + R * Suc H" "no_fail E (brk h3) (R * Suc H)"
            by (auto simp: H_def R_def)
          have g4: "grows h h4 ((({ms} \<union> {ep}) \<union> set erows) \<union> rounds_blocks mids)"
            using g3 mi(3) by (rule grows_trans)
          have b4: "brk h4 = brk h + (2 + H + R * Suc H)" using mi(4) b3 by simp
          have n4: "no_fail E (brk h) (2 + H + R * Suc H)"
            using n3 mi(5) [unfolded b3] by (rule no_fail_add)
          \<comment> \<open>the row pointers of the compression matrix\<close>
          obtain p2 h5 where m2: "malloc E h4 = (p2, h5)" by (cases "malloc E h4")
          show ?thesis
          proof (cases p2)
            case None
            have "malloc E h4 = (None, h5)" using m2 None by simp
            from grows_malloc_None [OF this]
            have f: "grows h4 h5 {}" "brk h5 = Suc (brk h4)" "malloc_fails E (brk h4)" by blast+
            have res: "r = None" "h' = free ms (free ep (free_rows erows (free_rounds mids h5)))"
              using pm mal0 mal1 ar \<open>re = Inr erows\<close> am Inr m2 None
              by (simp_all add: precompute_matrices_def)
            have g: "grows h h5 (((({ms} \<union> {ep}) \<union> set erows) \<union> rounds_blocks mids) \<union> {})"
              using g4 f(1) by (rule grows_trans)
            note F = grows_lower [OF g]
            have "grows h h' {}"
              unfolding res by (rule grows_free' grows_free_rows' grows_free_rounds' g)+
                (use F wf in auto)
            then have "case r of None \<Rightarrow> (\<exists>k. k < struct_requests E \<and> malloc_fails E (brk h + k) \<and> no_fail E (brk h) k
                       \<and> brk h' = brk h + k + 1) \<and> grows h h' {} | Some ms \<Rightarrow> False"
              using K f b4 n4 res by (intro fail [of "2 + H + R * Suc H"]) simp_all
            then show ?thesis by (auto split: option.splits)
          next
            case (Some cp)
            have mal2: "malloc E h4 = (Some cp, h5)" using m2 Some by simp
            have e5: "grows h4 h5 {cp}" "brk h5 = Suc (brk h4)" "\<not> malloc_fails E (brk h4)"
              using grows_malloc_Some [OF mal2] by blast+
            have g5: "grows h h5 (((({ms} \<union> {ep}) \<union> set erows) \<union> rounds_blocks mids) \<union> {cp})"
              using g4 e5(1) by (rule grows_trans)
            have b5: "brk h5 = brk h + (2 + H + R * Suc H + 1)" using e5(2) b4 by simp
            have "no_fail E (brk h) (Suc (2 + H + R * Suc H))"
              using n4 e5(3) [unfolded b4] by (rule no_fail_snoc)
            then have n5: "no_fail E (brk h) (2 + H + R * Suc H + 1)" by simp
            \<comment> \<open>the rows of the compression matrix\<close>
            obtain rc h6 where ac: "alloc_rows E (IN_SIZE E) [] h5 = (rc, h6)"
              by (cases "alloc_rows E (IN_SIZE E) [] h5")
            show ?thesis
            proof (cases rc)
              case (Inl rows)
              from alloc_rows_spec [OF ac] Inl obtain k where k: "k < I" "grows h5 h6 (set rows)"
                  "brk h6 = brk h5 + k + 1" "no_fail E (brk h5) k" "malloc_fails E (brk h5 + k)"
                by (auto simp: I_def)
              have res: "r = None"
                  "h' = free ms (free ep (free_rows erows (free_rounds mids (free cp (free_rows rows h6)))))"
                using pm mal0 mal1 ar \<open>re = Inr erows\<close> am \<open>rm = Inr mids\<close> mal2 ac Inl
                by (simp_all add: precompute_matrices_def)
              have g: "grows h h6 ((((({ms} \<union> {ep}) \<union> set erows) \<union> rounds_blocks mids) \<union> {cp}) \<union> set rows)"
                using g5 k(2) by (rule grows_trans)
              note F = grows_lower [OF g]
              have "grows h h' {}"
                unfolding res by (rule grows_free' grows_free_rows' grows_free_rounds' g)+
                  (use F wf in auto)
              moreover have "no_fail E (brk h) (2 + H + R * Suc H + 1 + k)"
                using n5 k(4) [unfolded b5] by (rule no_fail_add)
              ultimately have "case r of None \<Rightarrow> (\<exists>k. k < struct_requests E \<and> malloc_fails E (brk h + k) \<and> no_fail E (brk h) k
                       \<and> brk h' = brk h + k + 1) \<and> grows h h' {} | Some ms \<Rightarrow> False"
                using K k b5 res by (intro fail [of "2 + H + R * Suc H + 1 + k"]) (simp_all add: add.assoc)
              then show ?thesis by (auto split: option.splits)
            next
              case (Inr crows)
              from alloc_rows_spec [OF ac] Inr have cr: "length crows = I" "grows h5 h6 (set crows)"
                  "brk h6 = brk h5 + I" "no_fail E (brk h5) I"
                by (auto simp: I_def)
              have g6: "grows h h6 ((((({ms} \<union> {ep}) \<union> set erows) \<union> rounds_blocks mids) \<union> {cp}) \<union> set crows)"
                using g5 cr(2) by (rule grows_trans)
              have b6: "brk h6 = brk h + K" using cr(3) b5 K by simp
              have "no_fail E (brk h) (2 + H + R * Suc H + 1 + I)"
                using n5 cr(4) [unfolded b5] by (rule no_fail_add)
              then have n6: "no_fail E (brk h) K" using K by simp
              \<comment> \<open>the keystream\<close>
              define M where "M = \<lparr>pm_block = ms,
                           expand_mat = new_matrix E ep erows (IN_SIZE E),
                           middle_mats = map (\<lambda>(p, rows). new_matrix E p rows (HIDDEN E)) mids,
                           compress_mat = new_matrix E cp crows (HIDDEN E)\<rparr>"
              obtain M' h7 where gen: "generate_all_matrices E M seed h6 = (M', h7)"
                by (cases "generate_all_matrices E M seed h6")
              have res: "r = Some M'" "h' = h7"
                using pm mal0 mal1 ar \<open>re = Inr erows\<close> am \<open>rm = Inr mids\<close> mal2 ac Inr gen
                by (simp_all add: precompute_matrices_def M_def [symmetric])
              have wf6: "wf_heap h6" using wf g6 by (rule grows_wf)
              have mshape: "\<forall>m\<in>set (middle_mats M). length (cells m) = HIDDEN E
                              \<and> (\<forall>r\<in>set (cells m). length r \<le> HIDDEN E)"
                using mi(2) by (auto simp: M_def H_def)
              from generate_all_matrices_spec [OF wf6 _ _ _ mshape _ _ gen]
              have G: "grows h6 h7 {}" "brk h7 = Suc (brk h6)" "matrices_blocks M' = matrices_blocks M"
                  "row_layout E M' = row_layout E M"
                  "if malloc_fails E (brk h6) then M' = M
                   else filled_from (ChaCha20_Keystream E (take 32 seed)) E M'"
                using er(1) mi(1) cr(1) by (auto simp: M_def H_def I_def R_def)
              have mm: "middle_mats M = map (\<lambda>(p, rows). new_matrix E p rows (HIDDEN E)) mids"
                by (simp add: M_def)
              have mb: "(\<Union>m\<in>set (middle_mats M). matrix_blocks m) = rounds_blocks mids"
                unfolding mm by (rule middle_blocks_new)
              have blocksM: "matrices_blocks M
                    = ((((({ms} \<union> {ep}) \<union> set erows) \<union> rounds_blocks mids) \<union> {cp}) \<union> set crows) \<union> {}"
                unfolding matrices_blocks_def mb by (auto simp: M_def)
              have "grows h h7 (matrices_blocks M')"
                unfolding G(3) blocksM using g6 G(1) by (rule grows_trans)
              moreover have "row_layout E M'"
                unfolding G(4) using er(1) mi(1,2) cr(1)
                by (auto simp: row_layout_def M_def H_def I_def R_def)
              moreover have "unfilled E M"
                by (auto simp: unfilled_def M_def)
              ultimately show ?thesis
                using res n6 b6 G(2,5) by (auto simp: K_def)
            qed
          qed
        qed
      qed
    qed
  qed
qed

subsection \<open>Releasing the matrices and the buffers\<close>

lemma released_free: "released h (free a h) [a]"
  by (simp add: released_def free_def)

lemma released_trans: "released h h1 as \<Longrightarrow> released h1 h2 bs \<Longrightarrow> released h h2 (as @ bs)"
  by (auto simp: released_def)

lemma released_free_rows: "released h (free_rows rows h) rows"
proof (induction rows arbitrary: h)
  case Nil then show ?case by (simp add: released_def free_rows_def)
next
  case (Cons a rows)
  have "released h (free a h) [a]" by (rule released_free)
  moreover have "released (free a h) (free_rows rows (free a h)) rows" by (rule Cons.IH)
  ultimately have "released h (free_rows rows (free a h)) ([a] @ rows)" by (rule released_trans)
  then show ?case by (simp add: free_rows_def)
qed

lemma fold_index_free: "fold (\<lambda>i h. free (bs ! i) h) [0..<length bs] h = free_rows bs h"
proof -
  have "fold (\<lambda>i h. free (bs ! i) h) [0..<length bs] h = fold free (map (\<lambda>i. bs ! i) [0..<length bs]) h"
    by (simp add: fold_map comp_def)
  then show ?thesis by (simp add: map_nth free_rows_def)
qed

lemma set_matrix_list [simp]: "set (matrix_list m) = matrix_blocks m"
  by (auto simp: matrix_list_def matrix_blocks_def)

lemma set_matrices_list [simp]: "set (matrices_list ms) = matrices_blocks ms"
  by (auto simp: matrices_list_def matrices_blocks_def)

lemma released_free_matrix:
  "length (blocks m) = n \<Longrightarrow> released h (free_matrix n m h) (matrix_list m)"
proof -
  assume "length (blocks m) = n"
  then have "free_matrix n m h = free (ptrs m) (free_rows (blocks m) h)"
    by (auto simp: free_matrix_def fold_index_free)
  moreover have "released h (free (ptrs m) (free_rows (blocks m) h)) (blocks m @ [ptrs m])"
    by (rule released_trans [OF released_free_rows released_free])
  ultimately show ?thesis by (simp add: matrix_list_def)
qed

lemma released_middle:
  assumes "\<forall>m\<in>set mats. length (blocks m) = n" and "k \<le> length mats"
  shows "released h (fold (\<lambda>r h. free_matrix n (mats ! r) h) [0..<k] h)
           (concat (map matrix_list (take k mats)))"
  using assms(2)
proof (induction k)
  case 0 then show ?case by (simp add: released_def)
next
  case (Suc k)
  then have k: "k < length mats" by simp
  then have "length (blocks (mats ! k)) = n" using assms(1) by simp
  then have "released (fold (\<lambda>r h. free_matrix n (mats ! r) h) [0..<k] h)
               (free_matrix n (mats ! k) (fold (\<lambda>r h. free_matrix n (mats ! r) h) [0..<k] h))
               (matrix_list (mats ! k))"
    by (rule released_free_matrix)
  with Suc have "released h (free_matrix n (mats ! k) (fold (\<lambda>r h. free_matrix n (mats ! r) h) [0..<k] h))
               (concat (map matrix_list (take k mats)) @ matrix_list (mats ! k))"
    by (intro released_trans) simp_all
  then show ?case using k by (simp add: take_Suc_conv_app_nth)
qed

lemma released_free_matrices:
  assumes "row_layout E ms"
  shows "released h (free_matrices E ms h) (matrices_list ms)"
proof -
  define h1 where "h1 = free_matrix (HIDDEN E) (expand_mat ms) h"
  define h2 where "h2 = fold (\<lambda>r h. free_matrix (HIDDEN E) (middle_mats ms ! r) h) [0..<ROUNDS E] h1"
  define h3 where "h3 = free_matrix (IN_SIZE E) (compress_mat ms) h2"
  have "released h h1 (matrix_list (expand_mat ms))"
    unfolding h1_def using assms by (intro released_free_matrix) (simp add: row_layout_def)
  moreover have "released h1 h2 (concat (map matrix_list (take (ROUNDS E) (middle_mats ms))))"
    unfolding h2_def using assms by (intro released_middle) (simp_all add: row_layout_def)
  moreover have "released h2 h3 (matrix_list (compress_mat ms))"
    unfolding h3_def using assms by (intro released_free_matrix) (simp add: row_layout_def)
  moreover have "released h3 (free (pm_block ms) h3) [pm_block ms]" by (rule released_free)
  ultimately have "released h (free (pm_block ms) h3)
      (((matrix_list (expand_mat ms) @ concat (map matrix_list (take (ROUNDS E) (middle_mats ms))))
         @ matrix_list (compress_mat ms)) @ [pm_block ms])"
    by (intro released_trans)
  moreover have "free_matrices E ms h = free (pm_block ms) h3"
    by (simp add: free_matrices_def Let_def h1_def h2_def h3_def)
  ultimately show ?thesis using assms by (simp add: matrices_list_def row_layout_def)
qed

lemma set_buffers_list [simp]: "set (buffers_list b) = buffers_blocks b"
  by (auto simp: buffers_list_def buffers_blocks_def)

lemma released_free_hash_buffers: "released h (free_hash_buffers b h) (buffers_list b)"
  by (simp add: released_def free_hash_buffers_def free_def buffers_list_def; blast)

subsection \<open>\<open>init_hash_buffers\<close>\<close>

lemma init_hash_buffers_spec:
  assumes wf: "wf_heap h" and ib: "init_hash_buffers E h = (r, h')"
  shows "case r of
           None \<Rightarrow> (\<exists>k. k < 4 \<and> malloc_fails E (brk h + k)) \<and> grows h h' {}
                    \<and> (brk h' = brk h + 1 \<or> brk h' = brk h + 4)
         | Some b \<Rightarrow> no_fail E (brk h) 4 \<and> brk h' = brk h + 4 \<and> grows h h' (buffers_blocks b)
                    \<and> buffers_shape E b"
proof -
  obtain p0 h1 where m0: "malloc E h = (p0, h1)" by (cases "malloc E h")
  show ?thesis
  proof (cases p0)
    case None
    have "malloc E h = (None, h1)" using m0 None by simp
    from grows_malloc_None [OF this]
    have f: "grows h h1 {}" "brk h1 = Suc (brk h)" "malloc_fails E (brk h)" by blast+
    have "r = None" "h' = h1" using ib m0 None by (simp_all add: init_hash_buffers_def)
    then show ?thesis using f by (auto intro!: exI [of _ 0])
  next
    case (Some bb)
    have mal0: "malloc E h = (Some bb, h1)" using m0 Some by simp
    have g1: "grows h h1 {bb}" "brk h1 = brk h + 1" "\<not> malloc_fails E (brk h)"
      using grows_malloc_Some [OF mal0] by auto
    obtain st h2 where m1: "malloc E h1 = (st, h2)" by (cases "malloc E h1")
    obtain nx h3 where m2: "malloc E h2 = (nx, h3)" by (cases "malloc E h2")
    obtain no h4 where m3: "malloc E h3 = (no, h4)" by (cases "malloc E h3")
    have s1: "grows h1 h2 (set_option st)" "brk h2 = brk h1 + 1" "st = None \<longleftrightarrow> malloc_fails E (brk h1)"
      using m1 grows_malloc_None [of E h1 h2] grows_malloc_Some [of E h1 _ h2] by (cases st; auto)+
    have s2: "grows h2 h3 (set_option nx)" "brk h3 = brk h2 + 1" "nx = None \<longleftrightarrow> malloc_fails E (brk h2)"
      using m2 grows_malloc_None [of E h2 h3] grows_malloc_Some [of E h2 _ h3] by (cases nx; auto)+
    have s3: "grows h3 h4 (set_option no)" "brk h4 = brk h3 + 1" "no = None \<longleftrightarrow> malloc_fails E (brk h3)"
      using m3 grows_malloc_None [of E h3 h4] grows_malloc_Some [of E h3 _ h4] by (cases no; auto)+
    have g: "grows h h4 ((({bb} \<union> set_option st) \<union> set_option nx) \<union> set_option no)"
      by (rule grows_trans [OF grows_trans [OF grows_trans [OF g1(1) s1(1)] s2(1)] s3(1)])
    have b4: "brk h4 = brk h + 4" using g1(2) s1(2) s2(2) s3(2) by simp
    have idx: "brk h1 = brk h + 1" "brk h2 = brk h + 2" "brk h3 = brk h + 3"
      using g1(2) s1(2) s2(2) by simp_all
    show ?thesis
    proof (cases "st \<noteq> None \<and> nx \<noteq> None \<and> no \<noteq> None")
      case True
      then obtain s n z where v: "st = Some s" "nx = Some n" "no = Some z" by auto
      have res: "r = Some \<lparr>hb_block = bb, state = (s, replicate (HIDDEN E) 0),
                         next_state = (n, replicate (HIDDEN E) 0),
                         noise = (z, fresh E z (total_noise_size E))\<rparr>" "h' = h4"
        using ib mal0 m1 m2 m3 v by (simp_all add: init_hash_buffers_def)
      have "no_fail E (brk h) 4"
        unfolding no_fail_def
      proof (intro allI impI)
        fix k :: nat assume "k < 4"
        then have "k = 0 \<or> k = 1 \<or> k = 2 \<or> k = 3" by arith
        then show "\<not> malloc_fails E (brk h + k)"
          using g1(3) s1(3) s2(3) s3(3) v idx by auto
      qed
      moreover have "grows h h4 {bb, s, n, z}" using g v by (simp add: insert_commute)
      ultimately show ?thesis
        using res b4 by (auto simp: buffers_blocks_def buffers_shape_def insert_commute)
    next
      case False
      then have res: "r = None" "h' = free bb (free_opt no (free_opt nx (free_opt st h4)))"
        using ib mal0 m1 m2 m3 by (auto simp: init_hash_buffers_def split: option.splits)
      note F = grows_lower [OF g]
      have step: "grows h (free_opt p hh) (S - set_option p)"
        if "grows h hh S" "\<forall>a\<in>set_option p. brk h \<le> a" for p hh S
        using that wf by (cases p) (auto simp: free_opt_def intro: grows_free)
      define S0 where "S0 = ((({bb} \<union> set_option st) \<union> set_option nx) \<union> set_option no)"
      have g': "grows h h4 S0" using g by (simp only: S0_def)
      have F': "\<forall>a\<in>S0. brk h \<le> a" using F by (simp only: S0_def)
      have a1: "grows h (free_opt st h4) (S0 - set_option st)"
        by (rule step [OF g']) (use F' in \<open>auto simp: S0_def\<close>)
      have a2: "grows h (free_opt nx (free_opt st h4)) (S0 - set_option st - set_option nx)"
        by (rule step [OF a1]) (use F' in \<open>auto simp: S0_def\<close>)
      have a3: "grows h (free_opt no (free_opt nx (free_opt st h4)))
                  (S0 - set_option st - set_option nx - set_option no)"
        by (rule step [OF a2]) (use F' in \<open>auto simp: S0_def\<close>)
      have a4: "grows h (free bb (free_opt no (free_opt nx (free_opt st h4))))
                  (S0 - set_option st - set_option nx - set_option no - {bb})"
        by (rule grows_free [OF a3 _ wf]) (use F' in \<open>auto simp: S0_def\<close>)
      moreover have "S0 - set_option st - set_option nx - set_option no - {bb} = {}"
        by (auto simp: S0_def)
      ultimately have "grows h h' {}" using res by simp
      moreover have "\<exists>k. k < 4 \<and> malloc_fails E (brk h + k)"
      proof -
        from False consider "st = None" | "nx = None" | "no = None" by auto
        then show ?thesis
        proof cases
          case 1 then show ?thesis using s1(3) idx by (intro exI [of _ 1]) simp
        next
          case 2 then show ?thesis using s2(3) idx by (intro exI [of _ 2]) simp
        next
          case 3 then show ?thesis using s3(3) idx by (intro exI [of _ 3]) simp
        qed
      qed
      moreover have "brk h' = brk h + 4" using res b4 by (simp add: free_opt_def split: option.splits)
      ultimately show ?thesis using res by simp
    qed
  qed
qed

subsection \<open>\<open>tens_hash_precomputed\<close> computes the cascade\<close>

lemma tens_hash_precomputed_pipeline:
  "tens_hash_precomputed E input ms b output
     = pipeline matrix_multiply E (CSHA256 E (take 32 input)) input ms b output"
  by (simp add: tens_hash_precomputed_def pipeline_def generate_all_noise_def Let_def)

lemma tens_hash_precomputed_tp_pipeline:
  "tens_hash_precomputed_tp E input ms b output
     = pipeline matrix_multiply_tp E (crypto_hash_sha256 E (take (IN_SIZE E) input)) input ms b output"
  by (simp add: tens_hash_precomputed_tp_def pipeline_def Let_def)

lemma length_affine_layer [simp]: "length (affine_layer A inp e rows cols) = rows"
  by (simp add: affine_layer_def)

lemma pipeline_rounds:
  assumes mm: "\<And>A inp out e rows cols. rows \<le> length out \<Longrightarrow>
                 mm A inp out e rows cols = affine_layer A inp e rows cols @ drop rows out"
      and shape: "buffers_shape E b"
      and mids: "length (middle_mats ms) = ROUNDS E"
  shows "\<exists>b2. pipeline mm E digest input ms b output
           = (b2, mm (cells (compress_mat ms)) (snd (state b2)) output
                    (drop (HIDDEN E + ROUNDS E * HIDDEN E)
                       (map (\<lambda>i. digest ! (i mod 32)) [0..<total_noise_size E]))
                    (IN_SIZE E) (HIDDEN E))
         \<and> snd (state b2)
             = fold (\<lambda>r s. affine_layer (map cells (middle_mats ms) ! r) s
                      (drop (HIDDEN E + r * HIDDEN E)
                         (map (\<lambda>i. digest ! (i mod 32)) [0..<total_noise_size E]))
                      (HIDDEN E) (HIDDEN E)) [0..<ROUNDS E]
                 (affine_layer (cells (expand_mat ms)) input
                    (map (\<lambda>i. digest ! (i mod 32)) [0..<total_noise_size E]) (HIDDEN E) (IN_SIZE E))
         \<and> buffers_shape E b2 \<and> buffers_blocks b2 = buffers_blocks b"
proof -
  define H where "H = HIDDEN E"
  define nz where "nz = map (\<lambda>i. digest ! (i mod 32)) [0..<total_noise_size E]"
  have nzf: "fold (\<lambda>i nb. nb[i := digest ! (i mod 32)]) [0..<total_noise_size E] (snd (noise b)) = nz"
    unfolding nz_def using shape fold_update_upt [of "total_noise_size E" "snd (noise b)"]
    by (simp add: buffers_shape_def)
  define s0 where "s0 = affine_layer (cells (expand_mat ms)) input nz H (IN_SIZE E)"
  define b1 where "b1 = b\<lparr>noise := (fst (noise b), nz), state := (fst (state b), s0)\<rparr>"
  define step where "step = (\<lambda>r s. affine_layer (map cells (middle_mats ms) ! r) s
                               (drop (H + r * H) nz) H H)"
  have e0: "mm (cells (expand_mat ms)) input (snd (state b)) nz H (IN_SIZE E) = s0"
    using shape mm [of H "snd (state b)"] by (simp add: s0_def buffers_shape_def H_def)
  have rounds: "k \<le> ROUNDS E \<Longrightarrow>
        snd (state (fold (middle_round mm E ms (drop H nz)) [0..<k] b1)) = fold step [0..<k] s0
      \<and> length (snd (next_state (fold (middle_round mm E ms (drop H nz)) [0..<k] b1))) = H
      \<and> length (snd (state (fold (middle_round mm E ms (drop H nz)) [0..<k] b1))) = H
      \<and> noise (fold (middle_round mm E ms (drop H nz)) [0..<k] b1) = noise b1
      \<and> buffers_blocks (fold (middle_round mm E ms (drop H nz)) [0..<k] b1) = buffers_blocks b" for k
  proof (induction k)
    case 0
    then show ?case using shape by (simp add: b1_def buffers_shape_def buffers_blocks_def H_def s0_def)
  next
    case (Suc k)
    define bk where "bk = fold (middle_round mm E ms (drop H nz)) [0..<k] b1"
    have IH: "snd (state bk) = fold step [0..<k] s0" "length (snd (next_state bk)) = H"
        "length (snd (state bk)) = H" "noise bk = noise b1" "buffers_blocks bk = buffers_blocks b"
    proof -
      have "k \<le> ROUNDS E" using Suc.prems by simp
      note ih = Suc.IH [OF this, folded bk_def]
      show "snd (state bk) = fold step [0..<k] s0" "length (snd (next_state bk)) = H"
        "length (snd (state bk)) = H" "noise bk = noise b1" "buffers_blocks bk = buffers_blocks b"
        using ih by blast+
    qed
    have kR: "k < length (middle_mats ms)" using Suc.prems mids by simp
    have out: "mm (cells (middle_mats ms ! k)) (snd (state bk)) (snd (next_state bk))
                 (drop (k * H) (drop H nz)) H H = step k (fold step [0..<k] s0)"
      using mm [of H "snd (next_state bk)"] IH(1,2) kR
      by (simp add: step_def add.commute)
    have "fold (middle_round mm E ms (drop H nz)) [0..<Suc k] b1 = middle_round mm E ms (drop H nz) k bk"
      by (simp add: bk_def)
    also have "\<dots> = bk\<lparr>state := (fst (next_state bk), step k (fold step [0..<k] s0)),
                        next_state := state bk\<rparr>"
      using out by (simp add: middle_round_def H_def Let_def)
    finally show ?case
      using IH by (auto simp: buffers_blocks_def step_def)
  qed
  define b2 where "b2 = fold (middle_round mm E ms (drop H nz)) [0..<ROUNDS E] b1"
  have r2: "snd (state b2) = fold step [0..<ROUNDS E] s0" "length (snd (next_state b2)) = H"
      "length (snd (state b2)) = H" "noise b2 = noise b1" "buffers_blocks b2 = buffers_blocks b"
    using rounds [of "ROUNDS E", folded b2_def] by blast+
  have pl: "pipeline mm E digest input ms b output
        = (b2, mm (cells (compress_mat ms)) (snd (state b2)) output (drop (H + ROUNDS E * H) nz)
                 (IN_SIZE E) H)"
    unfolding pipeline_def nzf Let_def
    by (simp add: e0 [unfolded H_def] b2_def b1_def H_def)
  have "buffers_shape E b2"
    using r2 by (simp add: buffers_shape_def H_def b1_def nz_def)
  then show ?thesis
    using pl r2(1,5) unfolding step_def s0_def nz_def H_def by blast
qed

lemma pipeline_buffers:
  assumes mm: "\<And>A inp out e rows cols. rows \<le> length out \<Longrightarrow>
                 mm A inp out e rows cols = affine_layer A inp e rows cols @ drop rows out"
      and shape: "buffers_shape E b"
      and mids: "length (middle_mats ms) = ROUNDS E"
  shows "buffers_shape E (fst (pipeline mm E digest input ms b output))
         \<and> buffers_blocks (fst (pipeline mm E digest input ms b output)) = buffers_blocks b"
  using pipeline_rounds [OF assms, of digest input "output"] by auto

lemma pipeline_output:
  assumes mm: "\<And>A inp out e rows cols. rows \<le> length out \<Longrightarrow>
                 mm A inp out e rows cols = affine_layer A inp e rows cols @ drop rows out"
      and shape: "buffers_shape E b"
      and mids: "length (middle_mats ms) = ROUNDS E"
      and out: "IN_SIZE E \<le> length output"
  shows "snd (pipeline mm E digest input ms b output)
           = cascade E digest (cells (expand_mat ms)) (map cells (middle_mats ms))
               (cells (compress_mat ms)) input @ drop (IN_SIZE E) output"
proof -
  from pipeline_rounds [OF mm shape mids, of digest input "output"] obtain b2 where
    b2: "pipeline mm E digest input ms b output
           = (b2, mm (cells (compress_mat ms)) (snd (state b2)) output
                    (drop (HIDDEN E + ROUNDS E * HIDDEN E)
                       (map (\<lambda>i. digest ! (i mod 32)) [0..<total_noise_size E]))
                    (IN_SIZE E) (HIDDEN E))"
        "snd (state b2)
             = fold (\<lambda>r s. affine_layer (map cells (middle_mats ms) ! r) s
                      (drop (HIDDEN E + r * HIDDEN E)
                         (map (\<lambda>i. digest ! (i mod 32)) [0..<total_noise_size E]))
                      (HIDDEN E) (HIDDEN E)) [0..<ROUNDS E]
                 (affine_layer (cells (expand_mat ms)) input
                    (map (\<lambda>i. digest ! (i mod 32)) [0..<total_noise_size E]) (HIDDEN E) (IN_SIZE E))"
    by blast
  show ?thesis
    unfolding b2(1) snd_conv mm [OF out] b2(2) cascade_def Let_def ..
qed

lemma low8_word: "(ucast (word_of_int k :: int32) :: byte) = word_of_int k"
proof -
  have "uint (ucast (word_of_int k :: int32) :: byte) = uint (word_of_int k :: byte)"
    by (simp add: low8_uint uint_word_of_int)
  then show ?thesis by (rule word_uint_eqI)
qed

lemma layer_cell_word:
  "(ucast (row_sum row inp cols + scast (x :: int8)) :: byte) AND 0xFF =
   word_of_int ((\<Sum>j<cols. int (unat (row ! j)) * int (unat (inp ! j))) + sint x)"
proof -
  have "row_sum row inp cols = word_of_int (int (\<Sum>j<cols. unat (row ! j) * unat (inp ! j)))"
    by (simp only: row_sum_word of_int_of_nat_eq)
  also have "int (\<Sum>j<cols. unat (row ! j) * unat (inp ! j)) =
             (\<Sum>j<cols. int (unat (row ! j)) * int (unat (inp ! j)))"
    by (simp only: of_nat_sum of_nat_mult)
  finally have "row_sum row inp cols + scast x =
        word_of_int ((\<Sum>j<cols. int (unat (row ! j)) * int (unat (inp ! j))) + sint x)"
    by simp
  then show ?thesis unfolding and_FF by (simp only: low8_word)
qed

lemma matrix_multiply_affine:
  assumes "rows \<le> length out"
  shows "matrix_multiply A inp out e rows cols = affine_layer A inp e rows cols @ drop rows out"
proof -
  have "matrix_multiply A inp out e rows cols
        = map (\<lambda>i. mod256 (row_sum (A ! i) inp cols + scast (e ! i))) [0..<rows] @ drop rows out"
    unfolding matrix_multiply_def using assms by (rule fold_update_upt)
  then show ?thesis by (simp only: mod256_def layer_cell_word affine_layer_def)
qed

lemma matrix_multiply_tp_affine:
  assumes "rows \<le> length out"
  shows "matrix_multiply_tp A inp out e rows cols = affine_layer A inp e rows cols @ drop rows out"
proof -
  have "matrix_multiply_tp A inp out e rows cols
        = map (\<lambda>i. (ucast (row_sum (A ! i) inp cols + scast (e ! i)) :: byte) AND 0xFF) [0..<rows]
            @ drop rows out"
    unfolding matrix_multiply_tp_def using assms by (rule fold_update_upt)
  then show ?thesis by (simp only: layer_cell_word affine_layer_def)
qed

lemma tens_hash_precomputed_buffers:
  assumes "buffers_shape E b" and "length (middle_mats ms) = ROUNDS E"
  shows "buffers_shape E (fst (tens_hash_precomputed E input ms b output))
         \<and> buffers_blocks (fst (tens_hash_precomputed E input ms b output)) = buffers_blocks b"
  unfolding tens_hash_precomputed_pipeline
  using matrix_multiply_affine assms by (rule pipeline_buffers)

lemma tens_hash_precomputed_output:
  assumes "buffers_shape E b" and "length (middle_mats ms) = ROUNDS E"
      and "IN_SIZE E \<le> length output"
  shows "snd (tens_hash_precomputed E input ms b output)
           = cascade E (CSHA256 E (take 32 input)) (cells (expand_mat ms))
               (map cells (middle_mats ms)) (cells (compress_mat ms)) input
             @ drop (IN_SIZE E) output"
  unfolding tens_hash_precomputed_pipeline
  using matrix_multiply_affine assms by (rule pipeline_output)

lemma tens_hash_precomputed_tp_buffers:
  assumes "buffers_shape E b" and "length (middle_mats ms) = ROUNDS E"
  shows "buffers_shape E (fst (tens_hash_precomputed_tp E input ms b output))
         \<and> buffers_blocks (fst (tens_hash_precomputed_tp E input ms b output)) = buffers_blocks b"
  unfolding tens_hash_precomputed_tp_pipeline
  using matrix_multiply_tp_affine assms by (rule pipeline_buffers)

lemma tens_hash_precomputed_tp_output:
  assumes "buffers_shape E b" and "length (middle_mats ms) = ROUNDS E"
      and "IN_SIZE E \<le> length output"
  shows "snd (tens_hash_precomputed_tp E input ms b output)
           = cascade E (crypto_hash_sha256 E (take (IN_SIZE E) input)) (cells (expand_mat ms))
               (map cells (middle_mats ms)) (cells (compress_mat ms)) input
             @ drop (IN_SIZE E) output"
  unfolding tens_hash_precomputed_tp_pipeline
  using matrix_multiply_tp_affine assms by (rule pipeline_output)

subsection \<open>The cached \<open>tens_hash\<close>: hit and miss\<close>

lemma set_cache_list [simp]: "set (cache_list c) = cache_blocks c"
  by (simp add: cache_list_def cache_blocks_def split: option.splits)

lemma tens_hash_hit:
  assumes "cache_hit E c seed"
  shows "tens_hash E input seed output c h =
          (case (cachedMatrices c, cachedBuffers c) of
             (Some m, Some b) \<Rightarrow>
               (snd (tens_hash_precomputed E input m b output),
                c\<lparr>cachedBuffers := Some (fst (tens_hash_precomputed E input m b output))\<rparr>, h)
           | _ \<Rightarrow> (output, c, h))"
  using assms
  by (simp add: tens_hash_def cache_hit_def Let_def split: option.splits prod.splits)

lemma tens_hash_miss:
  assumes "\<not> cache_hit E c seed"
      and "precompute_matrices E seed (evict E c h) = (ms, h4)"
      and "init_hash_buffers E h4 = (bs, h5)"
  shows "tens_hash E input seed output c h =
          (case (ms, bs) of
             (Some m, Some b) \<Rightarrow>
               (snd (tens_hash_precomputed E input m b output),
                \<lparr>cacheInitialized = True, cachedSeed = take (IN_SIZE E) seed, cachedMatrices = ms,
                  cachedBuffers = Some (fst (tens_hash_precomputed E input m b output))\<rparr>, h5)
           | _ \<Rightarrow> (output, \<lparr>cacheInitialized = True, cachedSeed = take (IN_SIZE E) seed,
                            cachedMatrices = ms, cachedBuffers = bs\<rparr>, h5))"
proof -
  have "\<not> cacheInitialized c \<or> \<not> (if cacheInitialized c then take (IN_SIZE E) (cachedSeed c) = take (IN_SIZE E) seed else False)"
    using assms(1) by (auto simp: cache_hit_def)
  then show ?thesis
    using assms(2,3) unfolding tens_hash_def evict_def Let_def
    by (auto split: option.splits prod.splits)
qed

lemma released_evict:
  assumes "cache_inv E c h X"
  shows "released h (evict E c h) (cache_list c)"
proof -
  define h2 where "h2 = (case cachedMatrices c of None \<Rightarrow> h | Some m \<Rightarrow> free_matrices E m h)"
  have a: "released h h2 (case cachedMatrices c of None \<Rightarrow> [] | Some m \<Rightarrow> matrices_list m)"
  proof (cases "cachedMatrices c")
    case None then show ?thesis by (simp add: h2_def released_def)
  next
    case (Some m)
    then have "row_layout E m" using assms by (simp add: cache_inv_def)
    then show ?thesis using Some by (simp add: h2_def released_free_matrices)
  qed
  have b: "released h2 (case cachedBuffers c of None \<Rightarrow> h2 | Some b \<Rightarrow> free_hash_buffers b h2)
             (case cachedBuffers c of None \<Rightarrow> [] | Some b \<Rightarrow> buffers_list b)"
  proof (cases "cachedBuffers c")
    case None then show ?thesis by (simp add: released_def)
  next
    case (Some b) then show ?thesis by (simp add: released_free_hash_buffers)
  qed
  show ?thesis
    unfolding evict_def cache_list_def Let_def h2_def [symmetric]
    using a b by (rule released_trans)
qed

subsection \<open>Releases leave the request counter alone\<close>

lemma brk_fold_free [simp]: "brk (fold (\<lambda>i h. free (f i) h) xs h) = brk h"
  by (induction xs arbitrary: h) simp_all

lemma brk_free_matrix [simp]: "brk (free_matrix n m h) = brk h"
  by (simp add: free_matrix_def)

lemma brk_fold_free_matrix [simp]: "brk (fold (\<lambda>r h. free_matrix n (f r) h) xs h) = brk h"
  by (induction xs arbitrary: h) simp_all

lemma brk_free_matrices [simp]: "brk (free_matrices E ms h) = brk h"
  by (simp add: free_matrices_def Let_def)

lemma brk_free_hash_buffers [simp]: "brk (free_hash_buffers b h) = brk h"
  by (simp add: free_hash_buffers_def)

lemma brk_evict [simp]: "brk (evict E c h) = brk h"
  by (simp add: evict_def Let_def split: option.splits)

lemma live_free: "live (free a h) \<subseteq> live h"
  by (auto simp: free_def)

lemma live_fold_free: "live (fold (\<lambda>i h. free (f i) h) xs h) \<subseteq> live h"
proof (induction xs arbitrary: h)
  case Nil show ?case by simp
next
  case (Cons x xs)
  have "live (fold (\<lambda>i h. free (f i) h) xs (free (f x) h)) \<subseteq> live (free (f x) h)" by (rule Cons.IH)
  then show ?case using live_free [of "f x" h] by auto
qed

lemma live_free_matrix: "live (free_matrix n m h) \<subseteq> live h"
  unfolding free_matrix_def
  using live_free [of "ptrs m" "fold (\<lambda>i h. free (blocks m ! i) h) [0..<n] h"]
        live_fold_free [of "\<lambda>i. blocks m ! i" "[0..<n]" h] by blast

lemma live_fold_free_matrix: "live (fold (\<lambda>r h. free_matrix n (f r) h) xs h) \<subseteq> live h"
proof (induction xs arbitrary: h)
  case Nil show ?case by simp
next
  case (Cons x xs)
  have "live (fold (\<lambda>r h. free_matrix n (f r) h) xs (free_matrix n (f x) h)) \<subseteq> live (free_matrix n (f x) h)"
    by (rule Cons.IH)
  then show ?case using live_free_matrix [of n "f x" h] by auto
qed

lemma live_free_matrices: "live (free_matrices E ms h) \<subseteq> live h"
proof -
  define h1 where "h1 = free_matrix (HIDDEN E) (expand_mat ms) h"
  define h2 where "h2 = fold (\<lambda>r h. free_matrix (HIDDEN E) (middle_mats ms ! r) h) [0..<ROUNDS E] h1"
  define h3 where "h3 = free_matrix (IN_SIZE E) (compress_mat ms) h2"
  have "live h1 \<subseteq> live h" unfolding h1_def by (rule live_free_matrix)
  moreover have "live h2 \<subseteq> live h1" unfolding h2_def by (rule live_fold_free_matrix)
  moreover have "live h3 \<subseteq> live h2" unfolding h3_def by (rule live_free_matrix)
  moreover have "live (free (pm_block ms) h3) \<subseteq> live h3" by (rule live_free)
  moreover have "free_matrices E ms h = free (pm_block ms) h3"
    by (simp add: free_matrices_def Let_def h1_def h2_def h3_def)
  ultimately show ?thesis by auto
qed

lemma live_free_hash_buffers: "live (free_hash_buffers b h) \<subseteq> live h"
  by (auto simp: free_hash_buffers_def free_def)

lemma live_evict: "live (evict E c h) \<subseteq> live h"
proof -
  define h2 where "h2 = (case cachedMatrices c of None \<Rightarrow> h | Some m \<Rightarrow> free_matrices E m h)"
  have a: "live h2 \<subseteq> live h"
    unfolding h2_def using live_free_matrices by (auto split: option.splits)
  have "live (case cachedBuffers c of None \<Rightarrow> h2 | Some b \<Rightarrow> free_hash_buffers b h2) \<subseteq> live h2"
    using live_free_hash_buffers by (auto split: option.splits)
  then show ?thesis unfolding evict_def Let_def h2_def [symmetric] using a by auto
qed

lemma wf_evict: "wf_heap h \<Longrightarrow> wf_heap (evict E c h)"
  using live_evict [of E c h] by (auto simp: wf_heap_def)

lemma cache_hit_recorded: "cache_hit E \<lparr>cacheInitialized = True, cachedSeed = take (IN_SIZE E) seed,
                            cachedMatrices = ms, cachedBuffers = bs\<rparr> seed"
  by (simp add: cache_hit_def)

subsection \<open>The cached path after a failed allocation\<close>









subsection \<open>One resident entry\<close>

text \<open>
  Claim C2. The cache holds one seed, at most one matrix set and at most one set of buffers,
  and the live blocks of the heap are, besides the blocks \<open>X\<close> of the rest of the process,
  exactly the blocks of this one entry: this holds after every call when it held before. On
  a hit the heap is unchanged and the call keeps the same matrix set, the same seed and the
  same blocks. On a miss every block of the old entry is freed before the first request for
  the new entry is made: the trace continues with the releases of the old entry, followed by
  events that only concern blocks requested during this call.
\<close>

theorem tens_hash_single_entry:
  assumes inv: "cache_inv E c h X"
      and call: "tens_hash E input seed output c h = (output1, c1, h1)"
  shows "cache_inv E c1 h1 X
         \<and> (if cache_hit E c seed
            then h1 = h \<and> cachedMatrices c1 = cachedMatrices c \<and> cachedSeed c1 = cachedSeed c
                 \<and> cache_blocks c1 = cache_blocks c
            else cacheInitialized c1 \<and> cachedSeed c1 = take (IN_SIZE E) seed
                 \<and> (\<exists>evs. trace h1 = trace h @ map Free (cache_list c) @ evs
                          \<and> list_all (fresh_event (brk h)) evs))"
proof (cases "cache_hit E c seed")
  case True
  show ?thesis
  proof (cases "cachedMatrices c")
    case None
    then have "c1 = c" "h1 = h" using call unfolding tens_hash_hit [OF True] by auto
    then show ?thesis using inv True by simp
  next
    case m: (Some m)
    show ?thesis
    proof (cases "cachedBuffers c")
      case None
      then have "c1 = c" "h1 = h" using call m unfolding tens_hash_hit [OF True] by auto
      then show ?thesis using inv True by simp
    next
      case b: (Some b)
      define b' where "b' = fst (tens_hash_precomputed E input m b output)"
      have r: "c1 = c\<lparr>cachedBuffers := Some b'\<rparr>" "h1 = h"
        using call m b unfolding tens_hash_hit [OF True] b'_def by auto
      have "buffers_shape E b" "row_layout E m" using inv m b by (simp_all add: cache_inv_def)
      then have "buffers_shape E b' \<and> buffers_blocks b' = buffers_blocks b"
        unfolding b'_def by (intro tens_hash_precomputed_buffers) (simp_all add: row_layout_def)
      then have sh: "buffers_shape E b'" and bl: "buffers_blocks b' = buffers_blocks b" by simp_all
      have cb: "cache_blocks c1 = cache_blocks c"
        using r m b bl by (simp add: cache_blocks_def)
      have "cache_inv E c1 h1 X"
        using inv cb sh m unfolding cache_inv_def r by simp
      then show ?thesis using True cb r by simp
    qed
  qed
next
  case False
  obtain ms h4 where pm: "precompute_matrices E seed (evict E c h) = (ms, h4)"
    by (cases "precompute_matrices E seed (evict E c h)")
  obtain bs h5 where ib: "init_hash_buffers E h4 = (bs, h5)"
    by (cases "init_hash_buffers E h4")
  define h0 where "h0 = evict E c h"
  have wf: "wf_heap h" and lv: "live h = X \<union> cache_blocks c" and dj: "X \<inter> cache_blocks c = {}"
    using inv by (simp_all add: cache_inv_def)
  have rel: "released h h0 (cache_list c)" unfolding h0_def using inv by (rule released_evict)
  have b0: "brk h0 = brk h" and l0: "live h0 = X" and t0: "trace h0 = trace h @ map Free (cache_list c)"
    using rel lv dj by (auto simp: released_def)
  have wf0: "wf_heap h0" unfolding h0_def using wf by (rule wf_evict)
  define Sm where "Sm = (case ms of None \<Rightarrow> {} | Some m \<Rightarrow> matrices_blocks m)"
  define Sb where "Sb = (case bs of None \<Rightarrow> {} | Some b \<Rightarrow> buffers_blocks b)"
  have g1: "grows h0 h4 Sm" and rl: "case ms of None \<Rightarrow> True | Some m \<Rightarrow> row_layout E m"
    using precompute_matrices_spec [OF wf0 pm [folded h0_def]]
    by (auto simp: Sm_def split: option.splits)
  have wf4: "wf_heap h4" using wf0 g1 by (rule grows_wf)
  have g2: "grows h4 h5 Sb" and bsh: "case bs of None \<Rightarrow> True | Some b \<Rightarrow> buffers_shape E b"
    using init_hash_buffers_spec [OF wf4 ib] by (auto simp: Sb_def split: option.splits)
  have g: "grows h0 h5 (Sm \<union> Sb)" using g1 g2 by (rule grows_trans)
  have wf5: "wf_heap h5" using wf0 g by (rule grows_wf)
  have l5: "live h5 = X \<union> (Sm \<union> Sb)" using g l0 by (simp add: grows_def)
  have "\<forall>a\<in>Sm \<union> Sb. brk h \<le> a" using g b0 by (auto simp: grows_def)
  moreover have "\<forall>a\<in>X. a < brk h" using wf lv by (auto simp: wf_heap_def)
  ultimately have dj5: "X \<inter> (Sm \<union> Sb) = {}"
    unfolding disjoint_iff by (meson not_less)
  obtain evs where evs: "trace h5 = trace h0 @ evs" "\<forall>e\<in>set evs. fresh_event (brk h0) e"
    using g by (auto simp: grows_def)
  have tr: "\<exists>evs. trace h5 = trace h @ map Free (cache_list c) @ evs
                \<and> list_all (fresh_event (brk h)) evs"
    using evs t0 b0 by (auto simp: list_all_iff)
  define c0 where "c0 = \<lparr>cacheInitialized = True, cachedSeed = take (IN_SIZE E) seed,
                          cachedMatrices = ms, cachedBuffers = bs\<rparr>"
  have inv0: "cache_inv E c0 h5 X"
    using wf5 l5 dj5 rl bsh by (simp add: cache_inv_def c0_def cache_blocks_def Sm_def Sb_def)
  have res: "h1 = h5 \<and> cacheInitialized c1 \<and> cachedSeed c1 = take (IN_SIZE E) seed \<and> cache_inv E c1 h1 X"
  proof (cases ms)
    case None
    then have "c1 = c0" "h1 = h5"
      using call unfolding tens_hash_miss [OF False pm ib] c0_def by auto
    then show ?thesis using inv0 by (simp add: c0_def)
  next
    case m: (Some m)
    show ?thesis
    proof (cases bs)
      case None
      then have "c1 = c0" "h1 = h5"
        using call m unfolding tens_hash_miss [OF False pm ib] c0_def by auto
      then show ?thesis using inv0 by (simp add: c0_def)
    next
      case b: (Some b)
      define b' where "b' = fst (tens_hash_precomputed E input m b output)"
      have r: "c1 = c0\<lparr>cachedBuffers := Some b'\<rparr>" "h1 = h5"
        using call m b unfolding tens_hash_miss [OF False pm ib] b'_def c0_def by auto
      have "buffers_shape E b" "row_layout E m" using rl bsh m b by simp_all
      then have "buffers_shape E b' \<and> buffers_blocks b' = buffers_blocks b"
        unfolding b'_def by (intro tens_hash_precomputed_buffers) (simp_all add: row_layout_def)
      then have sh: "buffers_shape E b'" and bl: "buffers_blocks b' = buffers_blocks b" by simp_all
      have "cache_blocks c1 = cache_blocks c0"
        using r m b bl by (simp add: cache_blocks_def c0_def)
      then have "cache_inv E c1 h1 X"
        using inv0 sh m unfolding cache_inv_def r by (simp add: c0_def)
      then show ?thesis using r by (simp add: c0_def)
    qed
  qed
  then have "h1 = h5" "cacheInitialized c1" "cachedSeed c1 = take (IN_SIZE E) seed"
      "cache_inv E c1 h1 X" by blast+
  then show ?thesis using False tr by (simp del: append_assoc)
qed

text \<open>
  Witness for C2: two calls on the initial cache and a new heap, the second with another
  seed. After the second call the live blocks are the blocks of its entry, and its trace
  continues with the releases of the entry of the first call.
\<close>

theorem tens_hash_single_entry_witness:
  "cache_inv example_env
      (fst (snd (tens_hash example_env (replicate 32 5) (replicate 32 9) (replicate 32 0)
         (fst (snd (tens_hash example_env (replicate 32 1) (replicate 32 2) (replicate 32 0)
                      (cache_init example_env) heap_init)))
         (snd (snd (tens_hash example_env (replicate 32 1) (replicate 32 2) (replicate 32 0)
                      (cache_init example_env) heap_init))))))
      (snd (snd (tens_hash example_env (replicate 32 5) (replicate 32 9) (replicate 32 0)
         (fst (snd (tens_hash example_env (replicate 32 1) (replicate 32 2) (replicate 32 0)
                      (cache_init example_env) heap_init)))
         (snd (snd (tens_hash example_env (replicate 32 1) (replicate 32 2) (replicate 32 0)
                      (cache_init example_env) heap_init)))))) {}
   \<and> (\<exists>evs.
         trace (snd (snd (tens_hash example_env (replicate 32 5) (replicate 32 9) (replicate 32 0)
           (fst (snd (tens_hash example_env (replicate 32 1) (replicate 32 2) (replicate 32 0)
                        (cache_init example_env) heap_init)))
           (snd (snd (tens_hash example_env (replicate 32 1) (replicate 32 2) (replicate 32 0)
                        (cache_init example_env) heap_init))))))
         = trace (snd (snd (tens_hash example_env (replicate 32 1) (replicate 32 2) (replicate 32 0)
                              (cache_init example_env) heap_init)))
           @ map Free (cache_list (fst (snd (tens_hash example_env (replicate 32 1) (replicate 32 2)
                                               (replicate 32 0) (cache_init example_env) heap_init))))
           @ evs
         \<and> list_all (fresh_event (brk (snd (snd (tens_hash example_env (replicate 32 1)
                        (replicate 32 2) (replicate 32 0) (cache_init example_env) heap_init))))) evs)"
proof -
  obtain d1 c1 h1 where r1:
    "tens_hash example_env (replicate 32 1) (replicate 32 2) (replicate 32 0)
       (cache_init example_env) heap_init = (d1, c1, h1)"
    by (metis prod_cases3)
  obtain d2 c2 h2 where r2:
    "tens_hash example_env (replicate 32 5) (replicate 32 9) (replicate 32 0) c1 h1 = (d2, c2, h2)"
    by (metis prod_cases3)
  have inv: "cache_inv example_env (cache_init example_env) heap_init {}"
    by (simp add: cache_inv_def cache_init_def heap_init_def wf_heap_def cache_blocks_def)
  have miss: "\<not> cache_hit example_env (cache_init example_env) (replicate 32 2)"
    by (simp add: cache_hit_def cache_init_def)
  from tens_hash_single_entry [OF inv r1] miss
  have inv1: "cache_inv example_env c1 h1 {}"
    and s1: "cachedSeed c1 = take (IN_SIZE example_env) (replicate 32 2)" by simp_all
  have miss2: "\<not> cache_hit example_env c1 (replicate 32 9)"
    unfolding cache_hit_def s1 by (simp add: example_env_def)
  from tens_hash_single_entry [OF inv1 r2] miss2
  show ?thesis unfolding r1 r2 snd_conv fst_conv by simp
qed

subsection \<open>When no request fails, the digest is a function of the seed and the input\<close>

lemma cascade_filled:
  assumes "filled_from (ChaCha20_Keystream E (take 32 seed)) E m"
  shows "cascade E (CSHA256 E (take 32 input)) (cells (expand_mat m)) (map cells (middle_mats m))
           (cells (compress_mat m)) input = tens_hash_value E seed input"
  using assms by (simp add: filled_from_def tens_hash_value_def Let_def)

lemma filled_rounds:
  assumes "filled_from ks E m"
  shows "length (middle_mats m) = ROUNDS E"
proof -
  have "length (map cells (middle_mats m)) = ROUNDS E"
    using assms unfolding filled_from_def by simp
  then show ?thesis by simp
qed

lemma tens_hash_step:
  assumes nf: "\<forall>n. \<not> malloc_fails E n" and big: "32 \<le> IN_SIZE E"
      and wf: "wf_heap h" and ok: "cache_ok E c"
      and len: "IN_SIZE E \<le> length output"
      and call: "tens_hash E input seed output c h = (d, c', h')"
  shows "d = tens_hash_value E seed input @ drop (IN_SIZE E) output \<and> wf_heap h' \<and> cache_ok E c'"
proof (cases "cache_hit E c seed")
  case True
  then obtain m b where mb: "cachedMatrices c = Some m" "cachedBuffers c = Some b"
      and fl: "filled_from (ChaCha20_Keystream E (take 32 (cachedSeed c))) E m"
      and sh: "buffers_shape E b"
    using ok by (auto simp: cache_ok_def cache_hit_def)
  have "take 32 (take (IN_SIZE E) (cachedSeed c)) = take 32 (take (IN_SIZE E) seed)"
    using True by (simp add: cache_hit_def)
  then have key: "take 32 (cachedSeed c) = take 32 seed" using big by (simp add: min_def)
  note fl' = fl [unfolded key]
  have mids: "length (middle_mats m) = ROUNDS E" using fl by (rule filled_rounds)
  define b' where "b' = fst (tens_hash_precomputed E input m b output)"
  have r: "d = snd (tens_hash_precomputed E input m b output)" "c' = c\<lparr>cachedBuffers := Some b'\<rparr>" "h' = h"
    using call mb unfolding tens_hash_hit [OF True] b'_def by auto
  have d: "d = tens_hash_value E seed input @ drop (IN_SIZE E) output"
    unfolding r(1) tens_hash_precomputed_output [OF sh mids len] cascade_filled [OF fl'] ..
  have "buffers_shape E b'" unfolding b'_def using tens_hash_precomputed_buffers [OF sh mids] by simp
  then have "cache_ok E c'" using fl mb unfolding r cache_ok_def by simp
  then show ?thesis using d wf r(3) by simp
next
  case False
  obtain ms h4 where pm: "precompute_matrices E seed (evict E c h) = (ms, h4)"
    by (cases "precompute_matrices E seed (evict E c h)")
  obtain bs h5 where ib: "init_hash_buffers E h4 = (bs, h5)"
    by (cases "init_hash_buffers E h4")
  have wf0: "wf_heap (evict E c h)" using wf by (rule wf_evict)
  note sp = precompute_matrices_spec [OF wf0 pm]
  obtain m where m: "ms = Some m" using sp nf by (cases ms) auto
  have g1: "grows (evict E c h) h4 (matrices_blocks m)"
    and fl: "filled_from (ChaCha20_Keystream E (take 32 seed)) E m"
    using sp nf m by simp_all
  have wf4: "wf_heap h4" using wf0 g1 by (rule grows_wf)
  note si = init_hash_buffers_spec [OF wf4 ib]
  obtain b where b: "bs = Some b" using si nf by (cases bs) auto
  have g2: "grows h4 h5 (buffers_blocks b)" and sh: "buffers_shape E b"
    using si b by simp_all
  have wf5: "wf_heap h5" using wf4 g2 by (rule grows_wf)
  have mids: "length (middle_mats m) = ROUNDS E" using fl by (rule filled_rounds)
  define b' where "b' = fst (tens_hash_precomputed E input m b output)"
  have r: "d = snd (tens_hash_precomputed E input m b output)"
          "c' = \<lparr>cacheInitialized = True, cachedSeed = take (IN_SIZE E) seed,
                  cachedMatrices = Some m, cachedBuffers = Some b'\<rparr>" "h' = h5"
    using call m b unfolding tens_hash_miss [OF False pm ib] b'_def by auto
  have d: "d = tens_hash_value E seed input @ drop (IN_SIZE E) output"
    unfolding r(1) tens_hash_precomputed_output [OF sh mids len] cascade_filled [OF fl] ..
  have "buffers_shape E b'" unfolding b'_def using tens_hash_precomputed_buffers [OF sh mids] by simp
  moreover have "take 32 (take (IN_SIZE E) seed) = take 32 seed" using big by (simp add: min_def)
  ultimately have "cache_ok E c'" using fl unfolding r cache_ok_def by simp
  then show ?thesis using d wf5 r(3) by simp
qed

text \<open>
  With an allocator that does not fail, \<open>IN_SIZE\<close> at least the 32 bytes of a key, a cache
  in order (in particular the initial one) and output buffers of \<open>IN_SIZE\<close> bytes, a call
  of \<open>tens_hash\<close> returns \<open>tens_hash_value\<close> of its seed and input, whatever the cache held
  before; and in the sequence of calls with \<open>(A, x)\<close>, then \<open>(B, y)\<close>, then \<open>(A, x)\<close>, the
  third call returns the digest of the first.
\<close>

lemma tens_hash_no_failure_deterministic:
  assumes nf: "\<forall>n. \<not> malloc_fails E n" and big: "32 \<le> IN_SIZE E"
      and wf: "wf_heap h0" and ok: "cache_ok E c0"
      and l1: "length out1 = IN_SIZE E" and l2: "IN_SIZE E \<le> length out2"
      and l3: "length out3 = IN_SIZE E"
      and c1: "tens_hash E x A out1 c0 h0 = (d1, c1, h1)"
      and c2: "tens_hash E y B out2 c1 h1 = (d2, c2, h2)"
      and c3: "tens_hash E x A out3 c2 h2 = (d3, c3, h3)"
  shows "d1 = tens_hash_value E A x \<and> d3 = d1"
proof -
  have le1: "IN_SIZE E \<le> length out1" and le3: "IN_SIZE E \<le> length out3" using l1 l3 by simp_all
  from tens_hash_step [OF nf big wf ok le1 c1]
  have s1: "d1 = tens_hash_value E A x @ drop (IN_SIZE E) out1" "wf_heap h1" "cache_ok E c1" by simp_all
  from tens_hash_step [OF nf big s1(2,3) l2 c2]
  have s2: "wf_heap h2" "cache_ok E c2" by simp_all
  from tens_hash_step [OF nf big s2 le3 c3]
  have s3: "d3 = tens_hash_value E A x @ drop (IN_SIZE E) out3" by simp
  show ?thesis using s1(1) s3 l1 l3 by simp
qed

subsection \<open>A miss when the requests succeed, and when only the staging buffer fails\<close>

lemma tens_hash_miss_value:
  assumes miss: "\<not> cache_hit E c seed" and wf: "wf_heap h"
      and nf: "\<forall>n\<ge>brk h. \<not> malloc_fails E n" and big: "32 \<le> IN_SIZE E"
      and len: "IN_SIZE E \<le> length output"
      and call: "tens_hash E input seed output c h = (d, c', h')"
  shows "d = tens_hash_value E seed input @ drop (IN_SIZE E) output \<and> wf_heap h'
         \<and> brk h \<le> brk h' \<and> cacheInitialized c' \<and> cachedSeed c' = take (IN_SIZE E) seed"
proof -
  obtain ms h4 where pm: "precompute_matrices E seed (evict E c h) = (ms, h4)"
    by (cases "precompute_matrices E seed (evict E c h)")
  obtain bs h5 where ib: "init_hash_buffers E h4 = (bs, h5)"
    by (cases "init_hash_buffers E h4")
  have wf0: "wf_heap (evict E c h)" using wf by (rule wf_evict)
  note sp = precompute_matrices_spec [OF wf0 pm]
  obtain m where m: "ms = Some m" using sp nf by (cases ms) auto
  have g1: "grows (evict E c h) h4 (matrices_blocks m)"
    and b4: "brk h4 = brk h + struct_requests E + 1"
    and fl: "filled_from (ChaCha20_Keystream E (take 32 seed)) E m"
    using sp nf m by simp_all
  have wf4: "wf_heap h4" using wf0 g1 by (rule grows_wf)
  note si = init_hash_buffers_spec [OF wf4 ib]
  obtain b where b: "bs = Some b" using si nf b4 by (cases bs) auto
  have g2: "grows h4 h5 (buffers_blocks b)" and sh: "buffers_shape E b"
    using si b by simp_all
  have wf5: "wf_heap h5" using wf4 g2 by (rule grows_wf)
  have b5: "brk h \<le> brk h5" using g2 b4 by (simp add: grows_def)
  have mids: "length (middle_mats m) = ROUNDS E" using fl by (rule filled_rounds)
  have r: "d = snd (tens_hash_precomputed E input m b output)"
          "cacheInitialized c'" "cachedSeed c' = take (IN_SIZE E) seed" "h' = h5"
    using call m b unfolding tens_hash_miss [OF miss pm ib] by auto
  have d: "d = tens_hash_value E seed input @ drop (IN_SIZE E) output"
    unfolding r(1) tens_hash_precomputed_output [OF sh mids len] cascade_filled [OF fl] ..
  show ?thesis using d wf5 b5 r(2,3,4) by simp
qed

lemma tens_hash_staging_failure:
  assumes miss: "\<not> cache_hit E c seed" and wf: "wf_heap h"
      and ok: "no_fail E (brk h) (struct_requests E)"
      and st: "malloc_fails E (brk h + struct_requests E)"
      and bf: "no_fail E (brk h + struct_requests E + 1) 4"
      and len: "IN_SIZE E \<le> length output"
      and call: "tens_hash E input seed output c h = (d, c1, h1)"
  shows "(\<exists>m. cachedMatrices c1 = Some m \<and> row_layout E m \<and> unfilled E m
           \<and> d = cascade E (CSHA256 E (take 32 input)) (cells (expand_mat m))
                   (map cells (middle_mats m)) (cells (compress_mat m)) input
                 @ drop (IN_SIZE E) output)
         \<and> wf_heap h1 \<and> brk h + struct_requests E < brk h1
         \<and> cacheInitialized c1 \<and> cachedSeed c1 = take (IN_SIZE E) seed"
proof -
  obtain ms h4 where pm: "precompute_matrices E seed (evict E c h) = (ms, h4)"
    by (cases "precompute_matrices E seed (evict E c h)")
  obtain bs h5 where ib: "init_hash_buffers E h4 = (bs, h5)"
    by (cases "init_hash_buffers E h4")
  have wf0: "wf_heap (evict E c h)" using wf by (rule wf_evict)
  note sp = precompute_matrices_spec [OF wf0 pm]
  obtain m where m: "ms = Some m"
  proof (cases ms)
    case None
    then obtain k where "k < struct_requests E" "malloc_fails E (brk h + k)" using sp by auto
    then have False using ok by (simp add: no_fail_def)
    then show ?thesis ..
  next
    case (Some m) then show ?thesis using that by simp
  qed
  have b4: "brk h4 = brk h + struct_requests E + 1"
    and g1: "grows (evict E c h) h4 (matrices_blocks m)"
    and rl: "row_layout E m" and un: "unfilled E m"
    using sp m st by simp_all
  have wf4: "wf_heap h4" using wf0 g1 by (rule grows_wf)
  note si = init_hash_buffers_spec [OF wf4 ib]
  obtain b where b: "bs = Some b"
  proof (cases bs)
    case None
    then obtain k where "k < 4" "malloc_fails E (brk h4 + k)" using si by auto
    then have False using bf b4 by (simp add: no_fail_def)
    then show ?thesis ..
  next
    case (Some b) then show ?thesis using that by simp
  qed
  have sh: "buffers_shape E b" and g2: "grows h4 h5 (buffers_blocks b)" using si b by simp_all
  have wf5: "wf_heap h5" using wf4 g2 by (rule grows_wf)
  have b5: "brk h + struct_requests E < brk h5" using g2 b4 by (simp add: grows_def)
  have mids: "length (middle_mats m) = ROUNDS E" using rl by (simp add: row_layout_def)
  have r: "d = snd (tens_hash_precomputed E input m b output)" "cachedMatrices c1 = Some m"
      "cacheInitialized c1" "cachedSeed c1 = take (IN_SIZE E) seed" "h1 = h5"
    using call m b unfolding tens_hash_miss [OF miss pm ib] by auto
  have "\<exists>m. cachedMatrices c1 = Some m \<and> row_layout E m \<and> unfilled E m
           \<and> d = cascade E (CSHA256 E (take 32 input)) (cells (expand_mat m))
                   (map cells (middle_mats m)) (cells (compress_mat m)) input
                 @ drop (IN_SIZE E) output"
    using r(1,2) rl un unfolding tens_hash_precomputed_output [OF sh mids len] by blast
  then show ?thesis using wf5 b5 r(3,4,5) by simp
qed

subsection \<open>A failed request that \<open>precompute_matrices\<close> does not report\<close>

text \<open>
  Claim C3. When all requests for the structure, the row pointers and the rows succeed and
  the request for the staging buffer of \<open>generate_all_matrices\<close> fails,
  \<open>precompute_matrices\<close> of the node's file returns a matrix set, not a null pointer, and
  every row of every matrix of this set still has the indeterminate contents of its block:
  nothing was copied from the keystream.
\<close>

theorem precompute_matrices_unfilled:
  assumes wf: "wf_heap h"
      and ok: "no_fail E (brk h) (struct_requests E)"
      and st: "malloc_fails E (brk h + struct_requests E)"
  shows "\<exists>ms h'. precompute_matrices E seed h = (Some ms, h') \<and> row_layout E ms \<and> unfilled E ms"
proof -
  obtain r h' where pm: "precompute_matrices E seed h = (r, h')"
    by (cases "precompute_matrices E seed h")
  note sp = precompute_matrices_spec [OF wf pm]
  have "r \<noteq> None"
  proof
    assume "r = None"
    then obtain k where "k < struct_requests E" "malloc_fails E (brk h + k)"
      using sp by auto
    then show False using ok by (simp add: no_fail_def)
  qed
  then obtain ms where ms: "r = Some ms" by auto
  have "row_layout E ms" "unfilled E ms" using sp st unfolding ms by simp_all
  then show ?thesis using pm ms by simp
qed

text \<open>
  Witness for C3: with the dimensions 32, 1024 and 64 and a new heap, the request for the
  staging buffer is request number 66659. When it alone fails, the matrix set that is
  returned holds the contents of fresh blocks (\<open>0xAA\<close> in this environment) in place of the
  keystream of the seed.
\<close>

theorem precompute_matrices_unfilled_witness:
  "\<exists>ms h'. precompute_matrices staging_env (replicate 32 0x07) heap_init = (Some ms, h')
           \<and> cells (expand_mat ms) = replicate 1024 (replicate 32 0xAA)
           \<and> cells (compress_mat ms) = replicate 32 (replicate 1024 0xAA)"
proof -
  have n: "struct_requests staging_env = 66659"
    by (simp add: struct_requests_def staging_env_def example_env_def)
  have "wf_heap heap_init" by (simp add: wf_heap_def heap_init_def)
  moreover have "no_fail staging_env (brk heap_init) (struct_requests staging_env)"
    unfolding n by (simp add: no_fail_def staging_env_def heap_init_def)
  moreover have "malloc_fails staging_env (brk heap_init + struct_requests staging_env)"
    unfolding n by (simp add: staging_env_def heap_init_def)
  ultimately obtain ms h' where
    r: "precompute_matrices staging_env (replicate 32 0x07) heap_init = (Some ms, h')"
       "row_layout staging_env ms" "unfilled staging_env ms"
    using precompute_matrices_unfilled [of heap_init staging_env "replicate 32 0x07"] by blast
  have f: "fresh staging_env a k = replicate k 0xAA" for a k
    by (simp add: fresh_def staging_env_def example_env_def map_replicate_const)
  have d: "IN_SIZE staging_env = 32" "HIDDEN staging_env = 1024"
    by (simp_all add: staging_env_def example_env_def)
  have "cells (expand_mat ms) = map (\<lambda>a. replicate 32 0xAA) (blocks (expand_mat ms))"
       "length (blocks (expand_mat ms)) = 1024"
    using r(2,3) unfolding unfilled_def row_layout_def f d by blast+
  then have "cells (expand_mat ms) = replicate 1024 (replicate 32 0xAA)"
    by (simp add: map_replicate_const)
  moreover have "cells (compress_mat ms) = map (\<lambda>a. replicate 1024 0xAA) (blocks (compress_mat ms))"
       "length (blocks (compress_mat ms)) = 32"
    using r(2,3) unfolding unfilled_def row_layout_def f d by blast+
  then have "cells (compress_mat ms) = replicate 32 (replicate 1024 0xAA)"
    by (simp add: map_replicate_const)
  ultimately show ?thesis using r(1) by blast
qed

subsection \<open>A digest computed from matrices that were never filled\<close>

text \<open>
  Claim C1. The third call of the sequence \<open>(A, x)\<close>, \<open>(B, y)\<close>, \<open>(A, x)\<close> need not return
  the digest of the first. When the first call is a miss in which the requests for the
  structure, the row pointers and the rows succeed and the request for the staging buffer
  fails, and no later request fails, the first call writes the cascade over a matrix set
  every row of which still has the indeterminate contents of its block, and the third
  call, which builds the matrices of \<open>A\<close> again, writes the cascade over the keystream of
  \<open>A\<close>.
\<close>

theorem tens_hash_staging_failure_sequence:
  assumes big: "32 \<le> IN_SIZE E" and wf: "wf_heap h0" and miss: "\<not> cache_hit E c0 A"
      and ok: "no_fail E (brk h0) (struct_requests E)"
      and st: "malloc_fails E (brk h0 + struct_requests E)"
      and later: "\<forall>n>brk h0 + struct_requests E. \<not> malloc_fails E n"
      and ne: "take (IN_SIZE E) B \<noteq> take (IN_SIZE E) A"
      and l1: "length out1 = IN_SIZE E" and l2: "IN_SIZE E \<le> length out2"
      and l3: "length out3 = IN_SIZE E"
      and c1: "tens_hash E x A out1 c0 h0 = (d1, c1, h1)"
      and c2: "tens_hash E y B out2 c1 h1 = (d2, c2, h2)"
      and c3: "tens_hash E x A out3 c2 h2 = (d3, c3, h3)"
  shows "(\<exists>m. row_layout E m \<and> unfilled E m
            \<and> d1 = cascade E (CSHA256 E (take 32 x)) (cells (expand_mat m))
                     (map cells (middle_mats m)) (cells (compress_mat m)) x)
         \<and> d3 = tens_hash_value E A x"
proof -
  have le1: "IN_SIZE E \<le> length out1" and le3: "IN_SIZE E \<le> length out3" using l1 l3 by simp_all
  have bf: "no_fail E (brk h0 + struct_requests E + 1) 4"
    using later by (simp add: no_fail_def)
  note s1 = tens_hash_staging_failure [OF miss wf ok st bf le1 c1]
  obtain m where m: "row_layout E m" "unfilled E m"
      "d1 = cascade E (CSHA256 E (take 32 x)) (cells (expand_mat m))
              (map cells (middle_mats m)) (cells (compress_mat m)) x @ drop (IN_SIZE E) out1"
    using s1 by blast
  have wf1: "wf_heap h1" and b1: "brk h0 + struct_requests E < brk h1"
    and i1: "cacheInitialized c1" and k1: "cachedSeed c1 = take (IN_SIZE E) A"
    using s1 by blast+
  have miss2: "\<not> cache_hit E c1 B" using ne unfolding cache_hit_def k1 by simp
  have nf1: "\<forall>n\<ge>brk h1. \<not> malloc_fails E n" using later b1 by simp
  note s2 = tens_hash_miss_value [OF miss2 wf1 nf1 big l2 c2]
  have wf2: "wf_heap h2" and b2: "brk h1 \<le> brk h2"
    and k2: "cachedSeed c2 = take (IN_SIZE E) B"
    using s2 by blast+
  have miss3: "\<not> cache_hit E c2 A" using ne unfolding cache_hit_def k2 by simp
  have nf2: "\<forall>n\<ge>brk h2. \<not> malloc_fails E n" using nf1 b2 by simp
  note s3 = tens_hash_miss_value [OF miss3 wf2 nf2 big le3 c3]
  have "d3 = tens_hash_value E A x" using s3 l3 by simp
  moreover have "d1 = cascade E (CSHA256 E (take 32 x)) (cells (expand_mat m))
                        (map cells (middle_mats m)) (cells (compress_mat m)) x"
    using m(3) l1 by simp
  ultimately show ?thesis using m(1,2) by blast
qed

text \<open>
  Witness for C1: request 40, for the staging buffer of the first call, is the only one
  that fails; the seeds are \<open>A = 0, 1, \<dots>, 31\<close> and \<open>B = 9, 9, \<dots>\<close>, the inputs
  \<open>x = y = 1, 1, \<dots>\<close>, the cache is the initial one and the heap is new. The first call
  returns the cascade over rows of \<open>0xAA\<close>, the contents of a fresh block in this
  environment; the third call returns another digest, the one of \<open>A\<close> and \<open>x\<close>.
\<close>

theorem tens_hash_staging_failure_sequence_witness:
  "(let (d1, c1, h1) = tens_hash staging_small_env (replicate 32 1) (map of_nat [0..<32])
                         (replicate 32 0) (cache_init staging_small_env) heap_init;
        (d2, c2, h2) = tens_hash staging_small_env (replicate 32 1) (replicate 32 9)
                         (replicate 32 0) c1 h1;
        (d3, c3, h3) = tens_hash staging_small_env (replicate 32 1) (map of_nat [0..<32])
                         (replicate 32 0) c2 h2
    in (d1, d3))
     = ([3, 4, 5, 6, 7, 8, 9, 10, 11, 12, 13, 14, 15, 16, 17, 18, 19, 20, 21, 22, 23, 24, 25,
         26, 27, 28, 29, 30, 255, 0, 1, 2],
        [197, 50, 159, 12, 121, 230, 83, 192, 45, 154, 7, 116, 225, 78, 91, 200, 53, 162, 15,
         124, 233, 86, 195, 48, 157, 10, 119, 228, 49, 158, 171, 24])"
proof -
  obtain d1 c1 h1 where r1:
    "tens_hash staging_small_env (replicate 32 1) (map of_nat [0..<32]) (replicate 32 0)
       (cache_init staging_small_env) heap_init = (d1, c1, h1)"
    by (metis prod_cases3)
  obtain d2 c2 h2 where r2:
    "tens_hash staging_small_env (replicate 32 1) (replicate 32 9) (replicate 32 0) c1 h1
       = (d2, c2, h2)"
    by (metis prod_cases3)
  obtain d3 c3 h3 where r3:
    "tens_hash staging_small_env (replicate 32 1) (map of_nat [0..<32]) (replicate 32 0) c2 h2
       = (d3, c3, h3)"
    by (metis prod_cases3)
  have dims: "IN_SIZE staging_small_env = 32" "HIDDEN staging_small_env = 2"
      "ROUNDS staging_small_env = 1"
    by (simp_all add: staging_small_env_def example_env_def)
  have n: "struct_requests staging_small_env = 40"
    by (simp add: struct_requests_def dims)
  have big: "32 \<le> IN_SIZE staging_small_env" by (simp add: dims)
  have miss: "\<not> cache_hit staging_small_env (cache_init staging_small_env) (map of_nat [0..<32])"
    by (simp add: cache_hit_def cache_init_def)
  have wf: "wf_heap heap_init" by (simp add: wf_heap_def heap_init_def)
  have ok: "no_fail staging_small_env (brk heap_init) (struct_requests staging_small_env)"
    unfolding n by (simp add: no_fail_def staging_small_env_def heap_init_def)
  have st: "malloc_fails staging_small_env (brk heap_init + struct_requests staging_small_env)"
    unfolding n by (simp add: staging_small_env_def heap_init_def)
  have later: "\<forall>k>brk heap_init + struct_requests staging_small_env.
                 \<not> malloc_fails staging_small_env k"
    unfolding n by (simp add: staging_small_env_def heap_init_def)
  have ne: "take (IN_SIZE staging_small_env) (replicate 32 (9::byte))
              \<noteq> take (IN_SIZE staging_small_env) (map of_nat [0..<32])"
    unfolding dims by code_simp
  have len: "length (replicate 32 (0::byte)) = IN_SIZE staging_small_env"
            "IN_SIZE staging_small_env \<le> length (replicate 32 (0::byte))"
    by (simp_all add: dims)
  from tens_hash_staging_failure_sequence
         [OF big wf miss ok st later ne len(1) len(2) len(1) r1 r2 r3]
  obtain m where
    m: "row_layout staging_small_env m" "unfilled staging_small_env m"
       "d1 = cascade staging_small_env (CSHA256 staging_small_env (take 32 (replicate 32 1)))
              (cells (expand_mat m)) (map cells (middle_mats m)) (cells (compress_mat m))
              (replicate 32 1)"
    and d3: "d3 = tens_hash_value staging_small_env (map of_nat [0..<32]) (replicate 32 1)"
    by blast
  have f: "fresh staging_small_env a k = replicate k 0xAA" for a k
    by (simp add: fresh_def staging_small_env_def example_env_def map_replicate_const)
  have "cells (expand_mat m) = map (\<lambda>a. replicate 32 0xAA) (blocks (expand_mat m))"
       "length (blocks (expand_mat m)) = 2"
    using m(1,2) unfolding unfilled_def row_layout_def f dims by blast+
  then have e: "cells (expand_mat m) = replicate 2 (replicate 32 0xAA)"
    by (simp add: map_replicate_const)
  have "cells (compress_mat m) = map (\<lambda>a. replicate 2 0xAA) (blocks (compress_mat m))"
       "length (blocks (compress_mat m)) = 32"
    using m(1,2) unfolding unfilled_def row_layout_def f dims by blast+
  then have co: "cells (compress_mat m) = replicate 32 (replicate 2 0xAA)"
    by (simp add: map_replicate_const)
  have lm: "length (middle_mats m) = 1"
    and am: "\<forall>x\<in>set (middle_mats m). cells x = map (\<lambda>a. replicate 2 0xAA) (blocks x)"
    and bm: "\<forall>x\<in>set (middle_mats m). length (blocks x) = 2"
    using m(1,2) unfolding unfilled_def row_layout_def f dims by blast+
  obtain x where x: "middle_mats m = [x]" using lm by (cases "middle_mats m") auto
  have "cells x = replicate 2 (replicate 2 0xAA)"
    using am bm unfolding x by (simp add: map_replicate_const)
  then have mi: "map cells (middle_mats m) = [replicate 2 (replicate 2 0xAA)]"
    unfolding x by simp
  have v1: "cascade staging_small_env (CSHA256 staging_small_env (take 32 (replicate 32 1)))
              (replicate 2 (replicate 32 0xAA)) [replicate 2 (replicate 2 0xAA)]
              (replicate 32 (replicate 2 0xAA)) (replicate 32 1)
            = [3, 4, 5, 6, 7, 8, 9, 10, 11, 12, 13, 14, 15, 16, 17, 18, 19, 20, 21, 22, 23, 24,
               25, 26, 27, 28, 29, 30, 255, 0, 1, 2]"
    by code_simp
  have v3: "tens_hash_value staging_small_env (map of_nat [0..<32]) (replicate 32 1)
            = [197, 50, 159, 12, 121, 230, 83, 192, 45, 154, 7, 116, 225, 78, 91, 200, 53, 162,
               15, 124, 233, 86, 195, 48, 157, 10, 119, 228, 49, 158, 171, 24]"
    by code_simp
  show ?thesis
    unfolding r1 Let_def prod.case r2 r3 m(3) d3 e co mi v1 v3 ..
qed

subsection \<open>The test harness: where a request fails\<close>

lemma no_fail_Suc_iff: "no_fail E b (Suc n) = (\<not> malloc_fails E b \<and> no_fail E (Suc b) n)"
proof
  assume a: "no_fail E b (Suc n)"
  have "\<not> malloc_fails E b" using a by (auto simp: no_fail_def)
  moreover have "no_fail E (b + 1) n" using a no_fail_drop [of E b 1 n] by simp
  ultimately show "\<not> malloc_fails E b \<and> no_fail E (Suc b) n" by simp
next
  assume "\<not> malloc_fails E b \<and> no_fail E (Suc b) n"
  then show "no_fail E b (Suc n)" by (simp add: no_fail_Suc_shift)
qed

lemma no_fail_add_iff: "no_fail E b (n + m) = (no_fail E b n \<and> no_fail E (b + n) m)"
  using no_fail_add [of E b n m] no_fail_drop [of E b n m] no_fail_take [of E b "n + m" n]
  by auto

lemma malloc_cases:
  obtains (fails) h1 where "malloc_fails E (brk h)" "malloc E h = (None, h1)" "brk h1 = Suc (brk h)"
        | (ok) h1 where "\<not> malloc_fails E (brk h)" "malloc E h = (Some (brk h), h1)"
                        "brk h1 = Suc (brk h)"
  by (cases "malloc_fails E (brk h)") (simp_all add: malloc_def)

lemma alloc_middle_tp_spec:
  assumes "alloc_middle_tp E n done h = (r, h')"
  shows "case r of
           Inr mids \<Rightarrow> no_fail E (brk h) (2 * n) \<and> brk h' = brk h + 2 * n
                       \<and> length mids = length done + n
         | Inl f \<Rightarrow> \<not> no_fail E (brk h) (2 * n)"
  using assms
proof (induction n arbitrary: "done" h)
  case 0
  then show ?case by auto
next
  case (Suc n)
  show ?case
  proof (cases rule: malloc_cases [of E h])
    case (fails h1)
    then have "r = Inl (done, PtrFailed_tp)" using Suc.prems by simp
    then show ?thesis using fails(1) by (simp add: no_fail_Suc_iff)
  next
    case (ok h1)
    note o1 = ok
    show ?thesis
    proof (cases rule: malloc_cases [of E h1])
      case (fails h2)
      then have "r = Inl (done, DataFailed_tp (brk h))" using Suc.prems o1 by simp
      then show ?thesis using fails(1) o1(3) by (simp add: no_fail_Suc_iff)
    next
      case (ok h2)
      then have rec: "alloc_middle_tp E n (done @ [(brk h, brk h1)]) h2 = (r, h')"
        using Suc.prems o1 by simp
      note ih = Suc.IH [OF rec]
      have b2: "brk h2 = Suc (Suc (brk h))" using ok(3) o1(3) by simp
      show ?thesis
      proof (cases r)
        case (Inl f)
        then have "\<not> no_fail E (Suc (Suc (brk h))) (2 * n)" using ih b2 by simp
        then show ?thesis using Inl by (simp add: no_fail_Suc_iff)
      next
        case (Inr mids)
        then have "no_fail E (Suc (Suc (brk h))) (2 * n)" "brk h' = Suc (Suc (brk h)) + 2 * n"
            "length mids = length (done @ [(brk h, brk h1)]) + n"
          using ih b2 by simp_all
        then show ?thesis using Inr o1(1,3) ok(1) by (simp add: no_fail_Suc_iff)
      qed
    qed
  qed
qed

subsection \<open>\<open>generate_matrices\<close> of the test harness\<close>

lemma row_view_slice:
  assumes "off + rows * cols \<le> N"
  shows "row_view rows cols (take (rows * cols) (drop off (map ks [0..<N])))
           = slice_rows ks off rows cols"
proof -
  have t: "take (rows * cols) (drop off (map ks [0..<N])) = map (\<lambda>j. ks (off + j)) [0..<rows * cols]"
    using assms by (rule take_drop_stream)
  have row: "take cols (drop (i * cols) (map (\<lambda>j. ks (off + j)) [0..<rows * cols]))
               = map (\<lambda>j. ks (off + i * cols + j)) [0..<cols]" if "i < rows" for i
  proof -
    have "Suc i * cols \<le> rows * cols" using that by (intro mult_le_mono1) simp
    then have "i * cols + cols \<le> rows * cols" by simp
    then have "take cols (drop (i * cols) (map (\<lambda>j. ks (off + j)) [0..<rows * cols]))
                 = map (\<lambda>j. ks (off + (i * cols + j))) [0..<cols]"
      by (rule take_drop_stream)
    then show ?thesis by (simp add: add.assoc)
  qed
  show ?thesis
    unfolding row_view_def slice_rows_def t using row by simp
qed

lemma generate_matrices_exit:
  "malloc_fails E (brk h) \<Longrightarrow> generate_matrices E ms seed h = Exit 1"
  by (simp add: generate_matrices_def malloc_def)

lemma generate_matrices_spec:
  assumes len: "length (middle_mats ms) = ROUNDS E" and ok: "\<not> malloc_fails E (brk h)"
  shows "\<exists>ms' h'. generate_matrices E ms seed h = Return (ms', h') \<and> brk h' = Suc (brk h)
           \<and> filled_from (crypto_stream_chacha20 E (take 32 seed)) E ms'"
proof -
  define ks where "ks = crypto_stream_chacha20 E (take 32 seed)"
  define data where "data = map ks [0..<total_size E]"
  define H where "H = HIDDEN E"
  define I where "I = IN_SIZE E"
  define R where "R = ROUNDS E"
  have ts: "total_size E = H * I + R * (H * H) + I * H"
    by (simp add: total_size_def H_def I_def R_def)
  define F where "F = (\<lambda>(r::nat) (m::matrix) p. m\<lparr>cells := row_view H H (take (H * H) (drop p data))\<rparr>)"
  have fm: "fold (\<lambda>r (mats, pos). (mats[r := (mats ! r)\<lparr>cells := row_view H H (take (H * H) (drop pos data))\<rparr>],
                                  pos + H * H)) [0..<R] (middle_mats ms, H * I)
            = (map (\<lambda>r. F r (middle_mats ms ! r) (H * I + r * (H * H))) [0..<R], H * I + R * (H * H))"
    using fold_update_pos [of R "middle_mats ms" F "H * H" "H * I"] len
    by (simp add: F_def R_def)
  have e1: "row_view H I (take (H * I) data) = slice_rows ks 0 H I"
    using row_view_slice [of 0 H I "total_size E" ks] by (simp add: data_def ts)
  have e2: "row_view H H (take (H * H) (drop (H * I + r * (H * H)) data))
              = slice_rows ks (H * I + r * (H * H)) H H" if "r < R" for r
  proof -
    have "Suc r * (H * H) \<le> R * (H * H)" using that by (intro mult_le_mono1) simp
    then have "H * I + r * (H * H) + H * H \<le> total_size E" by (simp add: ts)
    then show ?thesis unfolding data_def by (rule row_view_slice)
  qed
  have e3: "row_view I H (take (I * H) (drop (H * I + R * (H * H)) data))
              = slice_rows ks (H * I + R * (H * H)) I H"
    unfolding data_def by (rule row_view_slice) (simp add: ts)
  have mids: "map cells (map (\<lambda>r. F r (middle_mats ms ! r) (H * I + r * (H * H))) [0..<R])
                = map (\<lambda>r. slice_rows ks (H * I + r * (H * H)) H H) [0..<R]"
    using e2 by (simp add: F_def)
  show ?thesis
    unfolding generate_matrices_def
    using ok
    by (simp add: malloc_def Let_def fm [unfolded F_def H_def I_def R_def data_def ks_def]
          filled_from_def e1 [unfolded H_def I_def R_def data_def ks_def]
          e3 [unfolded H_def I_def R_def data_def ks_def]
          e2 [unfolded H_def I_def R_def data_def ks_def] free_def)
qed

subsection \<open>\<open>precompute_matrices\<close> and \<open>tens_hash\<close> of the test harness\<close>

lemma no_fail_snoc_iff: "no_fail E b (Suc n) = (no_fail E b n \<and> \<not> malloc_fails E (b + n))"
proof -
  have "no_fail E (b + n) (Suc 0) = (\<not> malloc_fails E (b + n))"
    by (simp add: no_fail_Suc_iff)
  then show ?thesis using no_fail_add_iff [of E b n "Suc 0"] by simp
qed

lemma no_fail_4:
  "no_fail E b 4 = (\<not> malloc_fails E b \<and> \<not> malloc_fails E (Suc b) \<and> \<not> malloc_fails E (Suc (Suc b))
                    \<and> \<not> malloc_fails E (Suc (Suc (Suc b))))"
proof -
  have "(4::nat) = Suc (Suc (Suc (Suc 0)))" by simp
  then show ?thesis by (simp only: no_fail_Suc_iff no_fail_0 simp_thms)
qed

lemma no_fail_struct_tp:
  "no_fail E b (2 * n + 5) =
     (\<not> malloc_fails E b \<and> \<not> malloc_fails E (Suc b) \<and> \<not> malloc_fails E (Suc (Suc b))
      \<and> no_fail E (Suc (Suc (Suc b))) (2 * n)
      \<and> \<not> malloc_fails E (Suc (Suc (Suc b)) + 2 * n)
      \<and> \<not> malloc_fails E (Suc (Suc (Suc (Suc b))) + 2 * n))"
proof -
  have e: "2 * n + 5 = Suc (Suc (Suc (2 * n + Suc (Suc 0))))" by simp
  have t: "no_fail E c (Suc (Suc 0)) = (\<not> malloc_fails E c \<and> \<not> malloc_fails E (Suc c))" for c
    by (simp only: no_fail_Suc_iff no_fail_0 simp_thms)
  show ?thesis
    unfolding e no_fail_Suc_iff no_fail_add_iff t by simp
qed

lemma no_fail_6:
  "no_fail E b (2 * n + 6) = (no_fail E b (2 * n + 5) \<and> \<not> malloc_fails E (b + (2 * n + 5)))"
proof -
  have e: "2 * n + 6 = Suc (2 * n + 5)" by simp
  show ?thesis unfolding e by (rule no_fail_snoc_iff)
qed

lemma no_fail_10:
  "no_fail E b (2 * n + 10) = (no_fail E b (2 * n + 6) \<and> no_fail E (b + (2 * n + 6)) 4)"
proof -
  have e: "2 * n + 10 = (2 * n + 6) + 4" by simp
  show ?thesis unfolding e by (rule no_fail_add_iff)
qed

lemma init_hash_buffers_result:
  "case init_hash_buffers E h of
     (None, h') \<Rightarrow> \<not> no_fail E (brk h) 4
   | (Some b, h') \<Rightarrow> no_fail E (brk h) 4 \<and> buffers_shape E b"
  by (auto simp: init_hash_buffers_def malloc_def no_fail_4 buffers_shape_def fresh_def Let_def
        split: option.splits prod.splits if_splits)

lemma precompute_matrices_tp_spec:
  "case precompute_matrices_tp E seed h of
     Exit n \<Rightarrow> n = 1 \<and> no_fail E (brk h) (2 * ROUNDS E + 5)
               \<and> malloc_fails E (brk h + (2 * ROUNDS E + 5))
   | Return (None, h') \<Rightarrow> \<not> no_fail E (brk h) (2 * ROUNDS E + 5)
   | Return (Some ms, h') \<Rightarrow>
       no_fail E (brk h) (2 * ROUNDS E + 6) \<and> brk h' = brk h + (2 * ROUNDS E + 6)
       \<and> filled_from (crypto_stream_chacha20 E (take 32 seed)) E ms
       \<and> length (middle_mats ms) = ROUNDS E"
proof -
  define R where "R = ROUNDS E"
  define b where "b = brk h"
  note D = no_fail_struct_tp [of E b R]
  have D6: "no_fail E b (2 * R + 6) = (no_fail E b (2 * R + 5) \<and> \<not> malloc_fails E (b + (2 * R + 5)))"
    by (rule no_fail_6)
  show ?thesis
  proof (cases rule: malloc_cases [of E h])
    case (fails h1)
    then have "precompute_matrices_tp E seed h = Return (None, h1)"
      by (simp add: precompute_matrices_tp_def)
    then show ?thesis using fails(1) D by (simp add: b_def R_def)
  next
    case (ok h1)
    note o1 = ok
    show ?thesis
    proof (cases rule: malloc_cases [of E h1])
      case (fails h2)
      then have "precompute_matrices_tp E seed h = Return (None, free (brk h) h2)"
        using o1 by (simp add: precompute_matrices_tp_def)
      then show ?thesis using fails(1) o1(3) D by (simp add: b_def R_def)
    next
      case (ok h2)
      note o2 = ok
      show ?thesis
      proof (cases rule: malloc_cases [of E h2])
        case (fails h3)
        then have "precompute_matrices_tp E seed h = Return (None, free (brk h) (free (brk h1) h3))"
          using o1 o2 by (simp add: precompute_matrices_tp_def)
        then show ?thesis using fails(1) o1(3) o2(3) D by (simp add: b_def R_def)
      next
        case (ok h3)
        note o3 = ok
        have b3: "brk h3 = Suc (Suc (Suc b))" using o1(3) o2(3) o3(3) by (simp add: b_def)
        obtain r h4 where am: "alloc_middle_tp E (ROUNDS E) [] h3 = (r, h4)"
          by (cases "alloc_middle_tp E (ROUNDS E) [] h3")
        note sp = alloc_middle_tp_spec [OF am]
        show ?thesis
        proof (cases r)
          case (Inl f)
          then have nf: "\<not> no_fail E (Suc (Suc (Suc b))) (2 * R)" using sp b3 by (simp add: R_def)
          obtain dn ff where f: "f = (dn, ff)" by (cases f)
          have "\<exists>h'. precompute_matrices_tp E seed h = Return (None, h')"
            using o1 o2 o3 am Inl f
            by (cases ff) (simp_all add: precompute_matrices_tp_def)
          then show ?thesis using nf D by (auto simp: b_def R_def)
        next
          case (Inr mids)
          then have nm: "no_fail E (Suc (Suc (Suc b))) (2 * R)"
            and b4: "brk h4 = Suc (Suc (Suc b)) + 2 * R" and lm: "length mids = R"
            using sp b3 by (simp_all add: R_def)
          show ?thesis
          proof (cases rule: malloc_cases [of E h4])
            case (fails h5)
            then have "\<exists>h'. precompute_matrices_tp E seed h = Return (None, h')"
              using o1 o2 o3 am Inr by (simp add: precompute_matrices_tp_def)
            then show ?thesis using fails(1) b4 D by (auto simp: b_def R_def)
          next
            case (ok h5)
            note o5 = ok
            show ?thesis
            proof (cases rule: malloc_cases [of E h5])
              case (fails h6)
              then have "\<exists>h'. precompute_matrices_tp E seed h = Return (None, h')"
                using o1 o2 o3 am Inr o5 by (simp add: precompute_matrices_tp_def)
              then show ?thesis using fails(1) o5(3) b4 D by (auto simp: b_def R_def)
            next
              case (ok h6)
              note o6 = ok
              have b6: "brk h6 = b + (2 * R + 5)" using o5(3) o6(3) b4 by simp
              have all: "no_fail E b (2 * R + 5)"
                using o1(1,3) o2(1,3) o3(1) nm o5(1,3) o6(1) b4 unfolding D by (simp add: b_def)
              define matrices where "matrices =
                \<lparr>pm_block = brk h,
                  expand_mat = new_matrix_tp E (brk h1) (brk h2) (HIDDEN E) (IN_SIZE E),
                  middle_mats = map (\<lambda>(p, a). new_matrix_tp E p a (HIDDEN E) (HIDDEN E)) mids,
                  compress_mat = new_matrix_tp E (brk h4) (brk h5) (IN_SIZE E) (HIDDEN E)\<rparr>"
              have lmm: "length (middle_mats matrices) = ROUNDS E"
                using lm by (simp add: matrices_def R_def)
              have P: "precompute_matrices_tp E seed h =
                         (case generate_matrices E matrices seed h6 of
                            Exit n \<Rightarrow> Exit n
                          | Return (matrices', h7) \<Rightarrow> Return (Some matrices', h7))"
                using o1 o2 o3 am Inr o5 o6
                by (simp add: precompute_matrices_tp_def matrices_def)
              show ?thesis
              proof (cases "malloc_fails E (brk h6)")
                case True
                then have "precompute_matrices_tp E seed h = Exit 1"
                  unfolding P by (simp add: generate_matrices_exit)
                then show ?thesis using all True b6 by (simp add: b_def R_def)
              next
                case False
                from generate_matrices_spec [OF lmm False, of seed] obtain ms' h7 where
                  g: "generate_matrices E matrices seed h6 = Return (ms', h7)"
                     "brk h7 = Suc (brk h6)"
                     "filled_from (crypto_stream_chacha20 E (take 32 seed)) E ms'"
                  by blast
                have "precompute_matrices_tp E seed h = Return (Some ms', h7)"
                  unfolding P g(1) by simp
                moreover have "no_fail E b (2 * R + 6)" using all False b6 unfolding D6 by simp
                moreover have "brk h7 = b + (2 * R + 6)" using g(2) b6 by simp
                moreover have "length (middle_mats ms') = ROUNDS E"
                proof -
                  have "length (map cells (middle_mats ms')) = ROUNDS E"
                    using g(3) unfolding filled_from_def by simp
                  then show ?thesis by simp
                qed
                ultimately show ?thesis using g(3) by (simp add: b_def R_def)
              qed
            qed
          qed
        qed
      qed
    qed
  qed
qed

lemma tens_hash_tp_cases:
  obtains (exit) "\<not> no_fail E (brk h) (2 * ROUNDS E + 10)"
                 "tens_hash_tp E input seed outp h = Exit 1"
        | (return) ms b h2 where "no_fail E (brk h) (2 * ROUNDS E + 10)"
            "filled_from (crypto_stream_chacha20 E (take 32 seed)) E ms"
            "length (middle_mats ms) = ROUNDS E" "buffers_shape E b"
            "tens_hash_tp E input seed outp h
               = Return (snd (tens_hash_precomputed_tp E input ms b outp),
                         free_hash_buffers (fst (tens_hash_precomputed_tp E input ms b outp))
                           (free_matrices_tp E ms h2))"
proof -
  have split: "no_fail E (brk h) (2 * ROUNDS E + 10)
                 = (no_fail E (brk h) (2 * ROUNDS E + 6) \<and> no_fail E (brk h + (2 * ROUNDS E + 6)) 4)"
    by (rule no_fail_10)
  have six': "no_fail E (brk h) (2 * ROUNDS E + 6)
                = (no_fail E (brk h) (2 * ROUNDS E + 5) \<and> \<not> malloc_fails E (brk h + (2 * ROUNDS E + 5)))"
    by (rule no_fail_6)
  have six: "no_fail E (brk h) (2 * ROUNDS E + 6) \<Longrightarrow> no_fail E (brk h) (2 * ROUNDS E + 5)"
    unfolding six' by simp
  note sp = precompute_matrices_tp_spec [where E = E and seed = seed and h = h]
  show ?thesis
  proof (cases "precompute_matrices_tp E seed h")
    case (Exit n)
    then have "n = 1" "\<not> no_fail E (brk h) (2 * ROUNDS E + 6)" using sp six' by simp_all
    then have "\<not> no_fail E (brk h) (2 * ROUNDS E + 10)"
        "tens_hash_tp E input seed outp h = Exit 1"
      using Exit split by (simp_all add: tens_hash_tp_def)
    then show ?thesis by (rule exit)
  next
    case (Return p)
    obtain r h1 where p: "p = (r, h1)" by (cases p)
    show ?thesis
    proof (cases r)
      case None
      then have "\<not> no_fail E (brk h) (2 * ROUNDS E + 6)" using sp Return p six by auto
      then have "\<not> no_fail E (brk h) (2 * ROUNDS E + 10)"
          "tens_hash_tp E input seed outp h = Exit 1"
        using Return p None split by (simp_all add: tens_hash_tp_def)
      then show ?thesis by (rule exit)
    next
      case (Some ms)
      then have a: "no_fail E (brk h) (2 * ROUNDS E + 6)" "brk h1 = brk h + (2 * ROUNDS E + 6)"
          "filled_from (crypto_stream_chacha20 E (take 32 seed)) E ms"
          "length (middle_mats ms) = ROUNDS E"
        using sp Return p by simp_all
      obtain q h2 where ib: "init_hash_buffers E h1 = (q, h2)" by (cases "init_hash_buffers E h1")
      note si = init_hash_buffers_result [where E = E and h = h1]
      show ?thesis
      proof (cases q)
        case None
        then have "\<not> no_fail E (brk h + (2 * ROUNDS E + 6)) 4" using si ib a(2) by simp
        then have "\<not> no_fail E (brk h) (2 * ROUNDS E + 10)"
            "tens_hash_tp E input seed outp h = Exit 1"
          using Return p Some ib None split by (simp_all add: tens_hash_tp_def)
        then show ?thesis by (rule exit)
      next
        case (Some b)
        then have s: "no_fail E (brk h + (2 * ROUNDS E + 6)) 4" "buffers_shape E b"
          using si ib a(2) by simp_all
        have t: "tens_hash_tp E input seed outp h
               = Return (snd (tens_hash_precomputed_tp E input ms b outp),
                         free_hash_buffers (fst (tens_hash_precomputed_tp E input ms b outp))
                           (free_matrices_tp E ms h2))"
          using Return p \<open>r = Some ms\<close> ib Some
          by (simp add: tens_hash_tp_def Let_def split: prod.splits)
        have "no_fail E (brk h) (2 * ROUNDS E + 10)" using a(1) s(1) split by simp
        then show ?thesis using a(3,4) s(2) t by (rule return)
      qed
    qed
  qed
qed

subsection \<open>Where an allocation failure ends the process\<close>




subsection \<open>The one-shot \<open>tens_hash\<close> and the cached one\<close>

text \<open>
  When no request fails, and the two ChaCha20 functions and the two SHA-256 functions are
  the same functions and \<open>IN_SIZE\<close> is 32, the one-shot \<open>tens_hash\<close> of the test harness
  returns \<open>tens_hash_value\<close> of the seed and the input, which is also what the cached
  \<open>tens_hash\<close> of the node's file returns when no request fails.
\<close>

lemma tens_hash_tp_value:
  assumes sz: "IN_SIZE E = 32"
      and ks: "crypto_stream_chacha20 E = ChaCha20_Keystream E"
      and sha: "crypto_hash_sha256 E = CSHA256 E"
      and one: "no_fail E (brk h) (2 * ROUNDS E + 10)"
      and len: "length output = IN_SIZE E"
  shows "\<exists>h2. tens_hash_tp E input seed output h = Return (tens_hash_value E seed input, h2)"
proof -
  obtain ms b h2 where
    r: "filled_from (crypto_stream_chacha20 E (take 32 seed)) E ms"
       "length (middle_mats ms) = ROUNDS E" "buffers_shape E b"
       "tens_hash_tp E input seed output h
          = Return (snd (tens_hash_precomputed_tp E input ms b output),
                    free_hash_buffers (fst (tens_hash_precomputed_tp E input ms b output))
                      (free_matrices_tp E ms h2))"
  proof (cases rule: tens_hash_tp_cases [where E = E and h = h and seed = seed and input = input
          and outp = "output"])
    case exit
    then show ?thesis using one by simp
  next
    case (return ms b h2)
    then show ?thesis using that by simp
  qed
  have le: "IN_SIZE E \<le> length output" using len by simp
  have fl: "filled_from (ChaCha20_Keystream E (take 32 seed)) E ms" using r(1) ks by simp
  have "snd (tens_hash_precomputed_tp E input ms b output)
          = tens_hash_value E seed input @ drop (IN_SIZE E) output"
    unfolding tens_hash_precomputed_tp_output [OF r(3) r(2) le] sha sz cascade_filled [OF fl] ..
  then have "snd (tens_hash_precomputed_tp E input ms b output) = tens_hash_value E seed input"
    using len by simp
  then show ?thesis using r(4) by simp
qed

lemma tens_hash_tp_equals_cached_no_failure:
  assumes nf: "\<forall>n. \<not> malloc_fails E n" and sz: "IN_SIZE E = 32"
      and ks: "crypto_stream_chacha20 E = ChaCha20_Keystream E"
      and sha: "crypto_hash_sha256 E = CSHA256 E"
      and wf: "wf_heap h" and ok: "cache_ok E c"
      and len: "length output = IN_SIZE E" and len': "length output' = IN_SIZE E"
      and call: "tens_hash E input seed output c h = (d, c1, h1)"
  shows "\<exists>h2. tens_hash_tp E input seed output' h' = Return (d, h2)"
proof -
  have big: "32 \<le> IN_SIZE E" and le: "IN_SIZE E \<le> length output" using sz len by simp_all
  have "d = tens_hash_value E seed input @ drop (IN_SIZE E) output"
    using tens_hash_step [OF nf big wf ok le call] by simp
  then have d: "d = tens_hash_value E seed input" using len by simp
  have one: "no_fail E (brk h') (2 * ROUNDS E + 10)" using nf by (simp add: no_fail_def)
  show ?thesis unfolding d using sz ks sha one len' by (rule tens_hash_tp_value)
qed

text \<open>
  Claim C4. The one-shot \<open>tens_hash\<close> of the test harness and the cached \<open>tens_hash\<close> of
  the node's file need not return the same digest for the same seed and input. When none of
  the requests of the one-shot call fails it returns \<open>tens_hash_value\<close> of the seed and the
  input; when the cached call is a miss in which only the request for the staging buffer
  fails, it returns the cascade over a matrix set every row of which still has the
  indeterminate contents of its block.
\<close>

theorem tens_hash_tp_and_cached_differ:
  assumes sz: "IN_SIZE E = 32"
      and ks: "crypto_stream_chacha20 E = ChaCha20_Keystream E"
      and sha: "crypto_hash_sha256 E = CSHA256 E"
      and one: "no_fail E (brk h') (2 * ROUNDS E + 10)"
      and len': "length output' = IN_SIZE E"
      and miss: "\<not> cache_hit E c seed" and wf: "wf_heap h"
      and ok: "no_fail E (brk h) (struct_requests E)"
      and st: "malloc_fails E (brk h + struct_requests E)"
      and bf: "no_fail E (brk h + struct_requests E + 1) 4"
      and len: "length output = IN_SIZE E"
      and call: "tens_hash E input seed output c h = (d, c1, h1)"
  shows "(\<exists>h2. tens_hash_tp E input seed output' h' = Return (tens_hash_value E seed input, h2))
         \<and> (\<exists>m. row_layout E m \<and> unfilled E m
               \<and> d = cascade E (CSHA256 E (take 32 input)) (cells (expand_mat m))
                       (map cells (middle_mats m)) (cells (compress_mat m)) input)"
proof
  show "\<exists>h2. tens_hash_tp E input seed output' h' = Return (tens_hash_value E seed input, h2)"
    using sz ks sha one len' by (rule tens_hash_tp_value)
  have le: "IN_SIZE E \<le> length output" using len by simp
  from tens_hash_staging_failure [OF miss wf ok st bf le call] obtain m where
    m: "row_layout E m" "unfilled E m"
       "d = cascade E (CSHA256 E (take 32 input)) (cells (expand_mat m))
              (map cells (middle_mats m)) (cells (compress_mat m)) input @ drop (IN_SIZE E) output"
    by blast
  then show "\<exists>m. row_layout E m \<and> unfilled E m
               \<and> d = cascade E (CSHA256 E (take 32 input)) (cells (expand_mat m))
                       (map cells (middle_mats m)) (cells (compress_mat m)) input"
    using len by auto
qed

text \<open>
  Witness for C4: 32 bytes of input, two hidden units and one round; the seed
  \<open>0, 1, \<dots>, 31\<close> and the input \<open>1, 1, \<dots>\<close>; each call on a new heap, the cached one on the
  initial cache. The one-shot call makes requests 0 to 11 and returns the digest of the seed
  and the input; in the cached call request 40, for the staging buffer, fails and the
  digest is the cascade over rows of \<open>0xAA\<close>.
\<close>

theorem tens_hash_tp_and_cached_differ_witness:
  "(\<exists>h2. tens_hash_tp staging_small_env (replicate 32 1) (map of_nat [0..<32]) (replicate 32 0)
            heap_init
          = Return ([197, 50, 159, 12, 121, 230, 83, 192, 45, 154, 7, 116, 225, 78, 91, 200, 53,
                     162, 15, 124, 233, 86, 195, 48, 157, 10, 119, 228, 49, 158, 171, 24], h2))
   \<and> fst (tens_hash staging_small_env (replicate 32 1) (map of_nat [0..<32]) (replicate 32 0)
            (cache_init staging_small_env) heap_init)
       = [3, 4, 5, 6, 7, 8, 9, 10, 11, 12, 13, 14, 15, 16, 17, 18, 19, 20, 21, 22, 23, 24, 25,
          26, 27, 28, 29, 30, 255, 0, 1, 2]"
proof -
  obtain d c1 h1 where call:
    "tens_hash staging_small_env (replicate 32 1) (map of_nat [0..<32]) (replicate 32 0)
       (cache_init staging_small_env) heap_init = (d, c1, h1)"
    by (metis prod_cases3)
  have dims: "IN_SIZE staging_small_env = 32" "HIDDEN staging_small_env = 2"
      "ROUNDS staging_small_env = 1"
    by (simp_all add: staging_small_env_def example_env_def)
  have n: "struct_requests staging_small_env = 40"
    by (simp add: struct_requests_def dims)
  have ks: "crypto_stream_chacha20 staging_small_env = ChaCha20_Keystream staging_small_env"
    and sha: "crypto_hash_sha256 staging_small_env = CSHA256 staging_small_env"
    by (simp_all add: staging_small_env_def example_env_def)
  have one: "no_fail staging_small_env (brk heap_init) (2 * ROUNDS staging_small_env + 10)"
    unfolding dims by (simp add: no_fail_def staging_small_env_def heap_init_def)
  have miss: "\<not> cache_hit staging_small_env (cache_init staging_small_env) (map of_nat [0..<32])"
    by (simp add: cache_hit_def cache_init_def)
  have wf: "wf_heap heap_init" by (simp add: wf_heap_def heap_init_def)
  have ok: "no_fail staging_small_env (brk heap_init) (struct_requests staging_small_env)"
    unfolding n by (simp add: no_fail_def staging_small_env_def heap_init_def)
  have st: "malloc_fails staging_small_env (brk heap_init + struct_requests staging_small_env)"
    unfolding n by (simp add: staging_small_env_def heap_init_def)
  have bf: "no_fail staging_small_env (brk heap_init + struct_requests staging_small_env + 1) 4"
    unfolding n by (simp add: no_fail_def staging_small_env_def heap_init_def)
  have len: "length (replicate 32 (0::byte)) = IN_SIZE staging_small_env"
    by (simp add: dims)
  from tens_hash_tp_and_cached_differ
         [OF dims(1) ks sha one len miss wf ok st bf len call]
  obtain h2 m where
    t: "tens_hash_tp staging_small_env (replicate 32 1) (map of_nat [0..<32]) (replicate 32 0)
          heap_init
        = Return (tens_hash_value staging_small_env (map of_nat [0..<32]) (replicate 32 1), h2)"
    and m: "row_layout staging_small_env m" "unfilled staging_small_env m"
       "d = cascade staging_small_env (CSHA256 staging_small_env (take 32 (replicate 32 1)))
              (cells (expand_mat m)) (map cells (middle_mats m)) (cells (compress_mat m))
              (replicate 32 1)"
    by blast
  have f: "fresh staging_small_env a k = replicate k 0xAA" for a k
    by (simp add: fresh_def staging_small_env_def example_env_def map_replicate_const)
  have "cells (expand_mat m) = map (\<lambda>a. replicate 32 0xAA) (blocks (expand_mat m))"
       "length (blocks (expand_mat m)) = 2"
    using m(1,2) unfolding unfilled_def row_layout_def f dims by blast+
  then have e: "cells (expand_mat m) = replicate 2 (replicate 32 0xAA)"
    by (simp add: map_replicate_const)
  have "cells (compress_mat m) = map (\<lambda>a. replicate 2 0xAA) (blocks (compress_mat m))"
       "length (blocks (compress_mat m)) = 32"
    using m(1,2) unfolding unfilled_def row_layout_def f dims by blast+
  then have co: "cells (compress_mat m) = replicate 32 (replicate 2 0xAA)"
    by (simp add: map_replicate_const)
  have lm: "length (middle_mats m) = 1"
    and am: "\<forall>x\<in>set (middle_mats m). cells x = map (\<lambda>a. replicate 2 0xAA) (blocks x)"
    and bm: "\<forall>x\<in>set (middle_mats m). length (blocks x) = 2"
    using m(1,2) unfolding unfilled_def row_layout_def f dims by blast+
  obtain x where x: "middle_mats m = [x]" using lm by (cases "middle_mats m") auto
  have "cells x = replicate 2 (replicate 2 0xAA)"
    using am bm unfolding x by (simp add: map_replicate_const)
  then have mi: "map cells (middle_mats m) = [replicate 2 (replicate 2 0xAA)]"
    unfolding x by simp
  have v1: "cascade staging_small_env (CSHA256 staging_small_env (take 32 (replicate 32 1)))
              (replicate 2 (replicate 32 0xAA)) [replicate 2 (replicate 2 0xAA)]
              (replicate 32 (replicate 2 0xAA)) (replicate 32 1)
            = [3, 4, 5, 6, 7, 8, 9, 10, 11, 12, 13, 14, 15, 16, 17, 18, 19, 20, 21, 22, 23, 24,
               25, 26, 27, 28, 29, 30, 255, 0, 1, 2]"
    by code_simp
  have v3: "tens_hash_value staging_small_env (map of_nat [0..<32]) (replicate 32 1)
            = [197, 50, 159, 12, 121, 230, 83, 192, 45, 154, 7, 116, 225, 78, 91, 200, 53, 162,
               15, 124, 233, 86, 195, 48, 157, 10, 119, 228, 49, 158, 171, 24]"
    by code_simp
  have "d = [3, 4, 5, 6, 7, 8, 9, 10, 11, 12, 13, 14, 15, 16, 17, 18, 19, 20, 21, 22, 23, 24,
             25, 26, 27, 28, 29, 30, 255, 0, 1, 2]"
    unfolding m(3) e co mi v1 ..
  then show ?thesis using t unfolding call fst_conv v3 by blast
qed

end
